theory Spec2Isabelle
  imports Main "HOL-Library.AList"
begin

section \<open>Strings: \<^verbatim>\<open>str.split(',')\<close>, \<^verbatim>\<open>str.strip()\<close>, \<^verbatim>\<open>', '.join\<close>\<close>

text \<open>
  Strings are \<^typ>\<open>string\<close>; a \<^typ>\<open>char\<close> stands for a code point below 256.
  \<^verbatim>\<open>s.split(',')\<close> cuts at every comma and always returns at least one piece
  (\<^verbatim>\<open>''.split(',') == ['']\<close>, \<^verbatim>\<open>'a,'.split(',') == ['a', '']\<close>).
\<close>

fun split_on :: "char \<Rightarrow> string \<Rightarrow> string list" where
  "split_on c [] = [[]]"
| "split_on c (x # xs) =
     (if x = c then [] # split_on c xs
      else (x # hd (split_on c xs)) # tl (split_on c xs))"

text \<open>
  \<^verbatim>\<open>str.isspace\<close> on the code points below 256: TAB, LF, VT, FF, CR, the four
  separators 0x1C..0x1F, the space, NEL (0x85) and the no-break space (0xA0).
\<close>

definition is_space :: "char \<Rightarrow> bool" where
  "is_space c = (of_char c \<in> set [9, 10, 11, 12, 13, 28, 29, 30, 31, 32, 133, 160 :: nat])"

definition strip :: "string \<Rightarrow> string" where
  "strip s = rev (dropWhile is_space (rev (dropWhile is_space s)))"

fun join :: "string \<Rightarrow> string list \<Rightarrow> string" where
  "join sep [] = []"
| "join sep [t] = t"
| "join sep (t # u # ts) = t @ sep @ join sep (u # ts)"

section \<open>Exceptions\<close>

text \<open>
  The exceptions that can leave a function of the program; a function that may raise
  returns \<open>Inl\<close> of the exception or \<open>Inr\<close> of its result.
\<close>

datatype error =
    AttributeError
  | RuntimeError
  | NetworkXUnfeasible
  | KeyError
  | ValueError
  | UnboundLocalError

section \<open>The job table\<close>

text \<open>
  What a cell of the Dependencies column can hold: a string, \<^verbatim>\<open>None\<close>, or the float
  \<^verbatim>\<open>NaN\<close>. Which of the two a cell left empty holds is up to pandas and the data
  editor (\<^verbatim>\<open>None\<close> in an object column, \<^verbatim>\<open>NaN\<close> in a string column of pandas 3).
  \<^verbatim>\<open>None\<close> and the empty string are falsy; \<^verbatim>\<open>NaN\<close> is truthy and has no
  \<^verbatim>\<open>split\<close>.
\<close>

datatype cell = Str string | PyNone | NaN

text \<open>
  A row of the edited table. \<^verbatim>\<open>dropna(subset=['ID', 'Name'])\<close> removes the rows whose
  ID or Name is missing (\<^verbatim>\<open>None\<close> or \<^verbatim>\<open>NaN\<close>, here \<open>None\<close>), so the rows that
  reach the pipeline carry both; their Dependencies cell is kept as it is.
\<close>

record raw_row =
  raw_ID :: "string option"
  raw_Name :: "string option"
  raw_Dependencies :: cell

record row =
  ID :: string
  Name :: string
  Dependencies :: cell

type_synonym job = "string \<times> string \<times> string list"

fun dropna :: "raw_row list \<Rightarrow> row list" where
  "dropna [] = []"
| "dropna (r # rs) =
     (case (raw_ID r, raw_Name r) of
        (Some i, Some n) \<Rightarrow> \<lparr>ID = i, Name = n, Dependencies = raw_Dependencies r\<rparr> # dropna rs
      | _ \<Rightarrow> dropna rs)"

text \<open>
  \<^verbatim>\<open>row["Dependencies"].split(',') if row["Dependencies"] else []\<close>, the expression of
  lines 20 and 30: only the truth value of the cell is tested, so \<^verbatim>\<open>NaN\<close> reaches
  \<^verbatim>\<open>.split\<close>, which a float does not have.
\<close>

definition dependencies_of :: "row \<Rightarrow> error + string list" where
  "dependencies_of r =
     (case Dependencies r of
        PyNone \<Rightarrow> Inr []
      | Str s \<Rightarrow> if s = [] then Inr [] else Inr (split_on CHR '','' s)
      | NaN \<Rightarrow> Inl AttributeError)"

text \<open>The loop of \<^verbatim>\<open>process_jobs_from_input\<close>: the first exception ends it.\<close>

fun process_jobs_from_input :: "row list \<Rightarrow> error + job list" where
  "process_jobs_from_input [] = Inr []"
| "process_jobs_from_input (r # jobs_df) =
     (case dependencies_of r of
        Inl e \<Rightarrow> Inl e
      | Inr dependencies \<Rightarrow>
          (case process_jobs_from_input jobs_df of
             Inl e \<Rightarrow> Inl e
           | Inr jobs \<Rightarrow> Inr ((ID r, Name r, dependencies) # jobs)))"

section \<open>The dependency validator\<close>

text \<open>
  \<^verbatim>\<open>invalid_deps = [dep.strip() for dep in dependencies if dep.strip() not in job_ids]\<close>
\<close>

definition invalid_deps :: "string set \<Rightarrow> string list \<Rightarrow> string list" where
  "invalid_deps job_ids dependencies = filter (\<lambda>d. d \<notin> job_ids) (map strip dependencies)"

text \<open>
  The report is a Python dict: an association list in insertion order, where storing
  under a key that is present replaces its value in place (\<^const>\<open>AList.update\<close>).
\<close>

fun validate_loop ::
  "string set \<Rightarrow> row list \<Rightarrow> (string \<times> string list) list
     \<Rightarrow> error + (string \<times> string list) list" where
  "validate_loop job_ids [] invalid_dependencies = Inr invalid_dependencies"
| "validate_loop job_ids (r # rs) invalid_dependencies =
     (case dependencies_of r of
        Inl e \<Rightarrow> Inl e
      | Inr dependencies \<Rightarrow>
          if invalid_deps job_ids dependencies \<noteq> []
          then validate_loop job_ids rs
                 (AList.update (ID r) (invalid_deps job_ids dependencies) invalid_dependencies)
          else validate_loop job_ids rs invalid_dependencies)"

definition validate_dependencies :: "row list \<Rightarrow> error + (string \<times> string list) list" where
  "validate_dependencies jobs_df = validate_loop (set (map ID jobs_df)) jobs_df []"

section \<open>The dependency graph (\<^verbatim>\<open>networkx.DiGraph\<close>)\<close>

text \<open>
  The part of \<^verbatim>\<open>networkx.DiGraph\<close> the program uses. The library keeps three
  insertion-ordered dicts: \<^verbatim>\<open>_node\<close> (node to attribute dict), \<^verbatim>\<open>_succ\<close> and
  \<^verbatim>\<open>_pred\<close> (node to the dict of its successors, of its predecessors). Nodes and
  edges are never removed here, so the two adjacency dicts are the projections of one list
  of distinct edges in order of first insertion: \<^verbatim>\<open>G.neighbors(u)\<close> lists the targets
  of the edges leaving \<open>u\<close> and \<^verbatim>\<open>G.predecessors(v)\<close> the sources of the edges
  entering \<open>v\<close>, both in that order. The only node attribute is \<^verbatim>\<open>label\<close>, absent
  (\<open>None\<close>) on a node that \<^verbatim>\<open>add_edge\<close> created.
\<close>

record digraph =
  nx_node :: "(string \<times> string option) list"
  nx_edges :: "(string \<times> string) list"

definition DiGraph :: digraph where
  "DiGraph = \<lparr>nx_node = [], nx_edges = []\<rparr>"

definition nodes :: "digraph \<Rightarrow> string list" where
  "nodes G = map fst (nx_node G)"

text \<open>
  \<^verbatim>\<open>G.add_node(n, label=l)\<close>: a new node is appended with the attribute, a known node
  keeps its place and has the attribute overwritten.
\<close>

definition add_node :: "string \<Rightarrow> string \<Rightarrow> digraph \<Rightarrow> digraph" where
  "add_node n l G = G\<lparr>nx_node := AList.update n (Some l) (nx_node G)\<rparr>"

definition touch_node :: "string \<Rightarrow> digraph \<Rightarrow> digraph" where
  "touch_node n G =
     (if n \<in> set (nodes G) then G else G\<lparr>nx_node := nx_node G @ [(n, None)]\<rparr>)"

text \<open>
  \<^verbatim>\<open>G.add_edge(u, v)\<close>: \<open>u\<close>, then \<open>v\<close>, is created without attributes when
  unknown; the edge is stored, which changes nothing when it is there already.
\<close>

definition add_edge :: "string \<Rightarrow> string \<Rightarrow> digraph \<Rightarrow> digraph" where
  "add_edge u v G =
     (let G' = touch_node v (touch_node u G)
      in if (u, v) \<in> set (nx_edges G') then G'
         else G'\<lparr>nx_edges := nx_edges G' @ [(u, v)]\<rparr>)"

definition neighbors :: "digraph \<Rightarrow> string \<Rightarrow> string list" where
  "neighbors G u = map snd (filter (\<lambda>e. fst e = u) (nx_edges G))"

definition predecessors :: "digraph \<Rightarrow> string \<Rightarrow> string list" where
  "predecessors G v = map fst (filter (\<lambda>e. snd e = v) (nx_edges G))"

definition in_degree :: "digraph \<Rightarrow> string \<Rightarrow> int" where
  "in_degree G v = int (length (predecessors G v))"

text \<open>\<^verbatim>\<open>G.in_degree()\<close>: the pairs (node, in-degree) in node order.\<close>

definition in_degree_view :: "digraph \<Rightarrow> (string \<times> int) list" where
  "in_degree_view G = map (\<lambda>v. (v, in_degree G v)) (nodes G)"

section \<open>The graph builder\<close>

text \<open>
  \<^verbatim>\<open>for dep in dependencies: if dep: G.add_edge(dep, job_id)\<close>: only the empty
  string is falsy; the token is used as it stands.
\<close>

fun add_edges :: "string \<Rightarrow> string list \<Rightarrow> digraph \<Rightarrow> digraph" where
  "add_edges job_id [] G = G"
| "add_edges job_id (dep # dependencies) G =
     add_edges job_id dependencies (if dep \<noteq> [] then add_edge dep job_id G else G)"

fun build_loop ::
  "job list \<Rightarrow> digraph \<times> (string \<times> string) list \<Rightarrow> digraph \<times> (string \<times> string) list" where
  "build_loop [] (G, job_id_to_name) = (G, job_id_to_name)"
| "build_loop ((job_id, job_name, dependencies) # jobs) (G, job_id_to_name) =
     build_loop jobs
       (add_edges job_id dependencies (add_node job_id job_name G),
        AList.update job_id job_name job_id_to_name)"

definition build_dependency_graph :: "job list \<Rightarrow> digraph \<times> (string \<times> string) list" where
  "build_dependency_graph jobs = build_loop jobs (DiGraph, [])"

section \<open>Topological order (\<^verbatim>\<open>networkx.topological_sort\<close>)\<close>

text \<open>
  The library's generator, which \<^verbatim>\<open>topological_sort\<close> flattens:
  \<^verbatim>\<open>
  indegree_map = {v: d for v, d in G.in_degree() if d > 0}
  zero_indegree = [v for v, d in G.in_degree() if d == 0]
  while zero_indegree:
      this_generation = zero_indegree
      zero_indegree = []
      for node in this_generation:
          if node not in G:
              raise RuntimeError("Graph changed during iteration")
          for child in G.neighbors(node):
              try:
                  indegree_map[child] -= 1
              except KeyError as err:
                  raise RuntimeError("Graph changed during iteration") from err
              if indegree_map[child] == 0:
                  zero_indegree.append(child)
                  del indegree_map[child]
      yield this_generation
  if indegree_map:
      raise nx.NetworkXUnfeasible("Graph contains a cycle or graph changed during iteration")
  \<close>
  \<open>indegree_map\<close> is a dict, modelled as an association list. A generator is modelled
  by what it yields and the exception that ends it, if any.
\<close>

fun decrement_children ::
  "string list \<Rightarrow> (string \<times> int) list \<Rightarrow> string list
     \<Rightarrow> error + (string \<times> int) list \<times> string list" where
  "decrement_children [] indegree_map zero_indegree = Inr (indegree_map, zero_indegree)"
| "decrement_children (child # children) indegree_map zero_indegree =
     (case map_of indegree_map child of
        None \<Rightarrow> Inl RuntimeError
      | Some d \<Rightarrow>
          if d - 1 = 0
          then decrement_children children
                 (AList.delete child (AList.update child (d - 1) indegree_map))
                 (zero_indegree @ [child])
          else decrement_children children
                 (AList.update child (d - 1) indegree_map) zero_indegree)"

fun process_generation ::
  "digraph \<Rightarrow> string list \<Rightarrow> (string \<times> int) list \<Rightarrow> string list
     \<Rightarrow> error + (string \<times> int) list \<times> string list" where
  "process_generation G [] indegree_map zero_indegree = Inr (indegree_map, zero_indegree)"
| "process_generation G (n # this_generation) indegree_map zero_indegree =
     (if n \<notin> set (nodes G) then Inl RuntimeError
      else case decrement_children (neighbors G n) indegree_map zero_indegree of
             Inl e \<Rightarrow> Inl e
           | Inr (indegree_map', zero_indegree') \<Rightarrow>
               process_generation G this_generation indegree_map' zero_indegree')"

text \<open>
  The \<^verbatim>\<open>while\<close> loop ends: a generation that leaves a non-empty
  \<open>zero_indegree\<close> has deleted a key of \<open>indegree_map\<close> for each node it appended.
\<close>

lemma length_delete_less:
  "map_of al k = Some v \<Longrightarrow> length (AList.delete k al) < length al"
  by (induction al) (auto simp: less_Suc_eq_le AList.delete_eq split: if_splits)

lemma length_update_known:
  "map_of al k = Some v \<Longrightarrow> length (AList.update k w al) = length al"
  by (induction al) (auto split: if_splits)

lemma map_of_update_same: "map_of (AList.update k w al) k = Some w"
  by (simp add: update_conv')

lemma decrement_children_length:
  "decrement_children cs im zi = Inr (im', zi') \<Longrightarrow>
     length im' + length zi' \<le> length im + length zi"
proof (induction cs arbitrary: im zi)
  case Nil
  then show ?case by simp
next
  case (Cons c cs)
  from Cons.prems obtain d where d: "map_of im c = Some d"
    by (auto split: option.splits)
  show ?case
  proof (cases "d - 1 = 0")
    case True
    with Cons.prems d have
      "decrement_children cs (AList.delete c (AList.update c (d - 1) im)) (zi @ [c]) = Inr (im', zi')"
      by simp
    from Cons.IH[OF this] have
      "length im' + length zi' \<le> length (AList.delete c (AList.update c (d - 1) im)) + Suc (length zi)"
      by simp
    moreover have "length (AList.delete c (AList.update c (d - 1) im)) < length im"
      using length_delete_less[OF map_of_update_same, of c "d - 1" im] length_update_known[OF d]
      by simp
    ultimately show ?thesis by simp
  next
    case False
    with Cons.prems d have
      "decrement_children cs (AList.update c (d - 1) im) zi = Inr (im', zi')"
      by simp
    from Cons.IH[OF this] length_update_known[OF d] show ?thesis by simp
  qed
qed

lemma process_generation_length:
  "process_generation G ns im zi = Inr (im', zi') \<Longrightarrow>
     length im' + length zi' \<le> length im + length zi"
proof (induction ns arbitrary: im zi)
  case Nil
  then show ?case by simp
next
  case (Cons n ns)
  from Cons.prems obtain im1 zi1 where
    s: "decrement_children (neighbors G n) im zi = Inr (im1, zi1)"
    and r: "process_generation G ns im1 zi1 = Inr (im', zi')"
    by (auto split: if_splits sum.splits)
  from Cons.IH[OF r] decrement_children_length[OF s] show ?case by simp
qed

function generations ::
  "digraph \<Rightarrow> (string \<times> int) list \<Rightarrow> string list \<Rightarrow> string list list \<times> error option" where
  "generations G indegree_map zero_indegree =
     (if zero_indegree = []
      then ([], if indegree_map \<noteq> [] then Some NetworkXUnfeasible else None)
      else case process_generation G zero_indegree indegree_map [] of
             Inl e \<Rightarrow> ([], Some e)
           | Inr (indegree_map', zero_indegree') \<Rightarrow>
               (case generations G indegree_map' zero_indegree' of
                  (gs, e) \<Rightarrow> (zero_indegree # gs, e)))"
  by pat_completeness auto
termination
proof (relation "measure (\<lambda>(G, im, zi). length im + (if zi = [] then 0 else 1))")
  show "wf (measure (\<lambda>(G, im, zi). length im + (if zi = [] then 0 else 1)))"
    by simp
next
  fix G :: digraph and indegree_map zero_indegree x2 x y
  assume "zero_indegree \<noteq> []"
    and "process_generation G zero_indegree indegree_map [] = Inr x2"
    and "(x, y) = x2"
  then have "process_generation G zero_indegree indegree_map [] = Inr (x, y)"
    by simp
  from process_generation_length[OF this] \<open>zero_indegree \<noteq> []\<close>
  show "((G, x, y), G, indegree_map, zero_indegree)
          \<in> measure (\<lambda>(G, im, zi). length im + (if zi = [] then 0 else 1))"
    by (cases y) auto
qed

definition topological_generations :: "digraph \<Rightarrow> string list list \<times> error option" where
  "topological_generations G =
     generations G
       (filter (\<lambda>(v, d). d > 0) (in_degree_view G))
       (map fst (filter (\<lambda>(v, d). d = 0) (in_degree_view G)))"

text \<open>
  \<^verbatim>\<open>for generation in nx.topological_generations(G): yield from generation\<close>
\<close>

definition topological_sort :: "digraph \<Rightarrow> string list \<times> error option" where
  "topological_sort G = (case topological_generations G of (gs, e) \<Rightarrow> (concat gs, e))"

section \<open>The layer assigner\<close>

text \<open>
  The body of the loop of \<^verbatim>\<open>assign_layers\<close>. \<open>layers\<close> is a dict (an association
  list); \<^verbatim>\<open>layers[pred]\<close> raises \<open>KeyError\<close> on a node without a layer yet, and
  \<^verbatim>\<open>max\<close> of no value raises \<open>ValueError\<close>.
\<close>

fun assign_loop ::
  "digraph \<Rightarrow> string list \<Rightarrow> (string \<times> int) list \<Rightarrow> error + (string \<times> int) list" where
  "assign_loop G [] layers = Inr layers"
| "assign_loop G (n # order) layers =
     (if in_degree G n = 0 then assign_loop G order (AList.update n 0 layers)
      else case those (map (map_of layers) (predecessors G n)) of
             None \<Rightarrow> Inl KeyError
           | Some [] \<Rightarrow> Inl ValueError
           | Some (l # ls) \<Rightarrow> assign_loop G order (AList.update n (fold max ls l + 1) layers))"

text \<open>
  The loop consumes the generator as it yields: an exception of the body comes first,
  the exception that ends the generator comes after the last node yielded, and either
  one leaves \<^verbatim>\<open>assign_layers\<close> without a result.
\<close>

definition assign_layers :: "digraph \<Rightarrow> error + (string \<times> int) list" where
  "assign_layers G =
     (case topological_sort G of
        (order, e) \<Rightarrow>
          (case assign_loop G order [] of
             Inl e' \<Rightarrow> Inl e'
           | Inr layers \<Rightarrow> (case e of Some e' \<Rightarrow> Inl e' | None \<Rightarrow> Inr layers)))"

section \<open>Rendering\<close>

text \<open>
  What \<^verbatim>\<open>draw_layered_graph\<close> hands to \<^verbatim>\<open>nx.draw\<close>: the position and the label
  of every node, and for its colour the index \<^verbatim>\<open>layers[node] % 6\<close> into the palette
  (which \<^verbatim>\<open>random.shuffle\<close> permutes; the permutation is not modelled). The
  \<^verbatim>\<open>if\<close>/\<^verbatim>\<open>elif\<close> chain picks how the index \<open>i\<close> of a node in \<^verbatim>\<open>G.nodes()\<close>
  and its layer \<open>l\<close> become coordinates. An orientation that is none of the four leaves
  \<^verbatim>\<open>pos\<close> unbound, and the call of \<^verbatim>\<open>nx.draw\<close> raises \<open>UnboundLocalError\<close>.
\<close>

record drawing =
  pos :: "(string \<times> int \<times> int) list"
  node_colors :: "int list"
  labels :: "(string \<times> string) list"

definition positions ::
  "(int \<Rightarrow> int \<Rightarrow> int \<times> int) \<Rightarrow> digraph \<Rightarrow> (string \<times> int) list
     \<Rightarrow> (string \<times> int \<times> int) list option" where
  "positions f G layers =
     those (map (\<lambda>(i, n). map_option (\<lambda>l. (n, f (int i) l)) (map_of layers n))
              (enumerate 0 (nodes G)))"

definition orientations :: "string list" where
  "orientations = [''Top to Bottom'', ''Bottom to Top'', ''Left to Right'', ''Right to Left'']"

definition orientation_transform :: "string \<Rightarrow> (int \<Rightarrow> int \<Rightarrow> int \<times> int) option" where
  "orientation_transform orientation =
     (if orientation = ''Top to Bottom'' then Some (\<lambda>i l. (i, - l))
      else if orientation = ''Bottom to Top'' then Some (\<lambda>i l. (i, l))
      else if orientation = ''Left to Right'' then Some (\<lambda>i l. (l, - i))
      else if orientation = ''Right to Left'' then Some (\<lambda>i l. (- l, - i))
      else None)"

definition draw_layered_graph ::
  "digraph \<Rightarrow> (string \<times> int) list \<Rightarrow> (string \<times> string) list \<Rightarrow> string
     \<Rightarrow> error + drawing" where
  "draw_layered_graph G layers job_id_to_name orientation =
     (case map_option (\<lambda>f. positions f G layers) (orientation_transform orientation) of
        Some None \<Rightarrow> Inl KeyError
      | p \<Rightarrow>
          (case those (map (map_of layers) (nodes G)) of
             None \<Rightarrow> Inl KeyError
           | Some ls \<Rightarrow>
               (case p of
                  Some (Some ps) \<Rightarrow>
                    Inr \<lparr>pos = ps,
                         node_colors = map (\<lambda>l. l mod 6) ls,
                         labels = map (\<lambda>n. (n, case map_of job_id_to_name n of
                                                   Some name \<Rightarrow> name | None \<Rightarrow> n))
                                    (nodes G)\<rparr>
                | _ \<Rightarrow> Inl UnboundLocalError)))"

text \<open>
  The ordered table: \<^verbatim>\<open>sorted(layers.items(), key=lambda x: x[1])\<close> is a stable sort
  by layer; the Name column is \<^verbatim>\<open>.map(job_id_to_name)\<close>, missing (\<open>None\<close>) for an ID
  the dict does not have. A table row is (Layer, Job ID, Name).
\<close>

type_synonym table = "(int \<times> string \<times> string option) list"

definition ordered_jobs_df :: "(string \<times> int) list \<Rightarrow> (string \<times> string) list \<Rightarrow> table" where
  "ordered_jobs_df layers job_id_to_name =
     map (\<lambda>(n, l). (l, n, map_of job_id_to_name n)) (sort_key snd layers)"

definition visualize_jobs :: "row list \<Rightarrow> string \<Rightarrow> error + table \<times> drawing" where
  "visualize_jobs jobs_df orientation =
     (case process_jobs_from_input jobs_df of
        Inl e \<Rightarrow> Inl e
      | Inr jobs \<Rightarrow>
          (case build_dependency_graph jobs of
             (G, job_id_to_name) \<Rightarrow>
               (case assign_layers G of
                  Inl e \<Rightarrow> Inl e
                | Inr layers0 \<Rightarrow>
                    (let layers = map (\<lambda>(n, l). (n, l + 1)) layers0
                     in case draw_layered_graph G layers job_id_to_name orientation of
                          Inl e \<Rightarrow> Inl e
                        | Inr d \<Rightarrow> Inr (ordered_jobs_df layers job_id_to_name, d)))))"

section \<open>The page (\<^verbatim>\<open>main\<close>)\<close>

text \<open>
  One run of the Streamlit script. The session state is the accepted snapshot and the
  flag; the inputs are the edited table, whether the button was pressed, and the
  orientation the selector holds; the outputs are the widgets written after the static
  title, in order, and the exception that ends the run, if any. After \<^verbatim>\<open>dropna\<close> no
  ID is missing, so \<^verbatim>\<open>df.empty or df.isnull().all().all()\<close> holds exactly for the
  table without rows.
\<close>

record session =
  jobs_df :: "row list"
  jobs_updated :: bool

datatype ui =
    StError string
  | StSuccess string
  | StSubheader string
  | StDataframe table
  | StPyplot drawing

definition error_message :: "(string \<times> string list) list \<Rightarrow> string" where
  "error_message invalid_dependencies =
     ''Invalid dependencies found:'' @ [CHR 0x0A] @
     concat (map (\<lambda>(job_id, deps).
                    ''Job ID '' @ job_id @ '' has invalid dependencies: '' @
                    join '', '' deps @ [CHR 0x0A])
               invalid_dependencies)"

text \<open>
  The body of \<^verbatim>\<open>if st.button("Generate Graph")\<close>. The validator runs first, on the
  cleaned table; an exception it raises ends the run before anything is written.
\<close>

definition generate_graph :: "session \<Rightarrow> raw_row list \<Rightarrow> error + session \<times> ui list" where
  "generate_graph s edited =
     (let edited_jobs_df = dropna edited
      in case validate_dependencies edited_jobs_df of
           Inl e \<Rightarrow> Inl e
         | Inr invalid_dependencies \<Rightarrow>
             if edited_jobs_df = []
             then Inr (s, [StError ''Please enter job details and dependencies.''])
             else if invalid_dependencies \<noteq> []
             then Inr (s\<lparr>jobs_updated := False\<rparr>,
                       [StError (error_message invalid_dependencies)])
             else Inr (s\<lparr>jobs_df := edited_jobs_df, jobs_updated := True\<rparr>,
                       [StSuccess ''Jobs updated successfully.'']))"

definition main ::
  "session \<Rightarrow> raw_row list \<Rightarrow> bool \<Rightarrow> string \<Rightarrow> session \<times> ui list \<times> error option" where
  "main s edited button orientation =
     (case (if button then generate_graph s edited else Inr (s, [])) of
        Inl e \<Rightarrow> (s, [], Some e)
      | Inr (s', out) \<Rightarrow>
          if jobs_updated s'
          then (case visualize_jobs (jobs_df s') ''Top to Bottom'' of
                  Inl e \<Rightarrow> (s', out, Some e)
                | Inr (t, d) \<Rightarrow>
                    (case visualize_jobs (jobs_df s') orientation of
                       Inl e \<Rightarrow>
                         (s', out @ [StSubheader ''Ordered Jobs for Execution'', StDataframe t],
                          Some e)
                     | Inr (t', d') \<Rightarrow>
                         (s', out @ [StSubheader ''Ordered Jobs for Execution'', StDataframe t,
                                     StPyplot d'],
                          None)))
          else (s', out, None))"

section \<open>Notions for the proofs\<close>

subsection \<open>Graphs the builder makes\<close>

text \<open>
  What \<^verbatim>\<open>add_node\<close> and \<^verbatim>\<open>add_edge\<close> maintain: every node and every edge is
  stored once, and the ends of an edge are nodes.
\<close>

definition wf_digraph :: "digraph \<Rightarrow> bool" where
  "wf_digraph G \<longleftrightarrow>
     distinct (nodes G) \<and> distinct (nx_edges G) \<and>
     (\<forall>e \<in> set (nx_edges G). fst e \<in> set (nodes G) \<and> snd e \<in> set (nodes G))"

text \<open>\<open>has_edge G u v\<close>: the edge from \<open>u\<close> to \<open>v\<close> is stored and both its ends are nodes.\<close>

definition has_edge :: "digraph \<Rightarrow> string \<Rightarrow> string \<Rightarrow> bool" where
  "has_edge G u v \<longleftrightarrow> u \<in> set (nodes G) \<and> v \<in> set (nodes G) \<and> (u, v) \<in> set (nx_edges G)"

subsection \<open>The state of the topological sort\<close>

text \<open>
  \<open>remaining G P v\<close> counts the edges into \<open>v\<close> whose source is not in \<open>P\<close>, the set
  of nodes whose outgoing edges the loop has gone through. \<open>im_ok cnt im\<close> says that the
  dict \<open>indegree_map\<close> holds exactly the nodes with a positive count, each with its count.
\<close>

definition remaining :: "digraph \<Rightarrow> string set \<Rightarrow> string \<Rightarrow> nat" where
  "remaining G P v = length (filter (\<lambda>u. u \<notin> P) (predecessors G v))"

definition im_ok :: "(string \<Rightarrow> nat) \<Rightarrow> (string \<times> int) list \<Rightarrow> bool" where
  "im_ok cnt im \<longleftrightarrow>
     distinct (map fst im) \<and>
     (\<forall>v. map_of im v = (if 0 < cnt v then Some (int (cnt v)) else None))"

text \<open>
  \<open>topo_from G P order\<close>: every node of \<open>order\<close> has all its predecessors in \<open>P\<close> or
  earlier in \<open>order\<close>.
\<close>

fun topo_from :: "digraph \<Rightarrow> string set \<Rightarrow> string list \<Rightarrow> bool" where
  "topo_from G P [] = True"
| "topo_from G P (v # vs) = (set (predecessors G v) \<subseteq> P \<and> topo_from G (insert v P) vs)"

subsection \<open>Layers and names\<close>

text \<open>
  \<open>layer_ok G L v\<close>: in the dict \<open>L\<close> every predecessor of \<open>v\<close> has a layer, none
  negative, and the layer of \<open>v\<close> is 0 when there is no predecessor and one more than
  the greatest of their layers otherwise.
\<close>

definition layer_ok :: "digraph \<Rightarrow> (string \<Rightarrow> int option) \<Rightarrow> string \<Rightarrow> bool" where
  "layer_ok G L v \<longleftrightarrow>
     (\<exists>ls. map L (predecessors G v) = map Some ls \<and> (\<forall>l \<in> set ls. 0 \<le> l) \<and>
           L v = Some (if ls = [] then 0 else Max (set ls) + 1))"

text \<open>
  \<open>named st k n\<close>: in the state of the builder's loop the node \<open>k\<close> carries the label
  \<open>n\<close> and \<^verbatim>\<open>job_id_to_name\<close> maps \<open>k\<close> to \<open>n\<close>. A later row with another ID keeps
  it, a later row with the ID \<open>k\<close> overwrites both.
\<close>

definition named :: "digraph \<times> (string \<times> string) list \<Rightarrow> string \<Rightarrow> string \<Rightarrow> bool" where
  "named st k n \<longleftrightarrow>
     map_of (nx_node (fst st)) k = Some (Some n) \<and> map_of (snd st) k = Some n"

subsection \<open>The tokens of a row\<close>

text \<open>
  The comma-separated dependency tokens of a row: the list that lines 20 and 30 compute,
  and no token for a cell on which they raise.
\<close>

definition tokens :: "row \<Rightarrow> string list" where
  "tokens r = (case dependencies_of r of Inl e \<Rightarrow> [] | Inr dependencies \<Rightarrow> dependencies)"

text \<open>
  The report the validator builds on a table it does not raise on: the loop of
  \<^verbatim>\<open>validate_dependencies\<close> over the tokens of the rows.
\<close>

fun report_of ::
  "string set \<Rightarrow> row list \<Rightarrow> (string \<times> string list) list \<Rightarrow> (string \<times> string list) list" where
  "report_of job_ids [] acc = acc"
| "report_of job_ids (r # rs) acc =
     report_of job_ids rs
       (if invalid_deps job_ids (tokens r) \<noteq> []
        then AList.update (ID r) (invalid_deps job_ids (tokens r)) acc else acc)"

subsection \<open>Example tables\<close>

text \<open>Scenario A of the specification: a chain of three jobs.\<close>

abbreviation scenario_A :: "row list" where
  "scenario_A \<equiv>
     [\<lparr>ID = ''A'', Name = ''Compile'', Dependencies = PyNone\<rparr>,
      \<lparr>ID = ''B'', Name = ''Link'', Dependencies = Str ''A''\<rparr>,
      \<lparr>ID = ''C'', Name = ''Test'', Dependencies = Str ''B''\<rparr>]"

abbreviation jobs_A :: "job list" where
  "jobs_A \<equiv> [(''A'', ''Compile'', []), (''B'', ''Link'', [''A'']), (''C'', ''Test'', [''B''])]"

abbreviation graph_A :: digraph where
  "graph_A \<equiv>
     \<lparr>nx_node = [(''A'', Some ''Compile''), (''B'', Some ''Link''), (''C'', Some ''Test'')],
      nx_edges = [(''A'', ''B''), (''B'', ''C'')]\<rparr>"

text \<open>A job X that names two unknown IDs, and a job W whose dependency is known.\<close>

abbreviation scenario_B :: "row list" where
  "scenario_B \<equiv>
     [\<lparr>ID = ''X'', Name = ''Bad'', Dependencies = Str ''Y, X ,Z''\<rparr>,
      \<lparr>ID = ''W'', Name = ''Good'', Dependencies = Str ''X''\<rparr>]"

text \<open>Scenario D of the specification: C depends on A and on B.\<close>

abbreviation scenario_D :: "row list" where
  "scenario_D \<equiv>
     [\<lparr>ID = ''A'', Name = ''a'', Dependencies = Str ''''\<rparr>,
      \<lparr>ID = ''B'', Name = ''b'', Dependencies = Str ''''\<rparr>,
      \<lparr>ID = ''C'', Name = ''c'', Dependencies = Str ''A,B''\<rparr>]"

abbreviation jobs_D :: "job list" where
  "jobs_D \<equiv> [(''A'', ''a'', []), (''B'', ''b'', []), (''C'', ''c'', [''A'', ''B''])]"

abbreviation graph_D :: digraph where
  "graph_D \<equiv>
     \<lparr>nx_node = [(''A'', Some ''a''), (''B'', Some ''b''), (''C'', Some ''c'')],
      nx_edges = [(''A'', ''C''), (''B'', ''C'')]\<rparr>"

text \<open>Scenario C of the specification: A depends on B and B on A.\<close>

abbreviation scenario_C :: "row list" where
  "scenario_C \<equiv>
     [\<lparr>ID = ''A'', Name = ''a'', Dependencies = Str ''B''\<rparr>,
      \<lparr>ID = ''B'', Name = ''b'', Dependencies = Str ''A''\<rparr>]"

abbreviation jobs_C :: "job list" where
  "jobs_C \<equiv> [(''A'', ''a'', [''B'']), (''B'', ''b'', [''A''])]"

abbreviation graph_C :: digraph where
  "graph_C \<equiv>
     \<lparr>nx_node = [(''A'', Some ''a''), (''B'', Some ''b'')],
      nx_edges = [(''B'', ''A''), (''A'', ''B'')]\<rparr>"

text \<open>Two rows with the ID A around a row B that depends on A.\<close>

abbreviation repeated_A :: "row list" where
  "repeated_A \<equiv>
     [\<lparr>ID = ''A'', Name = ''first'', Dependencies = PyNone\<rparr>,
      \<lparr>ID = ''B'', Name = ''b'', Dependencies = Str ''A''\<rparr>,
      \<lparr>ID = ''A'', Name = ''second'', Dependencies = PyNone\<rparr>]"

abbreviation jobs_repeated_A :: "job list" where
  "jobs_repeated_A \<equiv> [(''A'', ''first'', []), (''B'', ''b'', [''A'']), (''A'', ''second'', [])]"

abbreviation graph_repeated_A :: digraph where
  "graph_repeated_A \<equiv>
     \<lparr>nx_node = [(''A'', Some ''second''), (''B'', Some ''b'')],
      nx_edges = [(''A'', ''B'')]\<rparr>"

section \<open>The parser\<close>

lemma split_on_nonempty: "split_on c s \<noteq> []"
  by (induction s) auto

lemma join_Cons: "join sep (t # ts) = (if ts = [] then t else t @ sep @ join sep ts)"
  by (cases ts) auto

lemma join_split_on: "join [c] (split_on c s) = s"
proof (induction s)
  case Nil
  then show ?case by simp
next
  case (Cons x xs)
  obtain t ts where sp: "split_on c xs = t # ts"
    using split_on_nonempty[of c xs] by (cases "split_on c xs") auto
  with Cons show ?case by (auto simp: join_Cons)
qed

lemma split_on_no_sep: "t \<in> set (split_on c s) \<Longrightarrow> c \<notin> set t"
proof (induction s arbitrary: t)
  case Nil
  then show ?case by simp
next
  case (Cons x xs)
  obtain u us where sp: "split_on c xs = u # us"
    using split_on_nonempty[of c xs] by (cases "split_on c xs") auto
  with Cons show ?case by (auto split: if_splits)
qed

lemma dependencies_of_tokens:
  "Dependencies r \<noteq> NaN \<Longrightarrow> dependencies_of r = Inr (tokens r)"
  by (cases "Dependencies r") (simp_all add: tokens_def dependencies_of_def)

lemma dependencies_of_NaN:
  "Dependencies r = NaN \<Longrightarrow> dependencies_of r = Inl AttributeError"
  by (simp add: dependencies_of_def)

lemma dependencies_of_Inr:
  "dependencies_of r = Inr ds \<longleftrightarrow> Dependencies r \<noteq> NaN \<and> ds = tokens r"
  by (cases "Dependencies r") (auto simp: tokens_def dependencies_of_def)

lemma dependencies_of_Inl:
  "dependencies_of r = Inl e \<longleftrightarrow> Dependencies r = NaN \<and> e = AttributeError"
  by (cases "Dependencies r") (auto simp: dependencies_of_def)

lemma tokens_cases:
  "tokens r =
     (case Dependencies r of
        Str s \<Rightarrow> if s = [] then [] else split_on CHR '','' s
      | PyNone \<Rightarrow> []
      | NaN \<Rightarrow> [])"
  by (cases "Dependencies r") (simp_all add: tokens_def dependencies_of_def)

lemma process_jobs_from_input_ok:
  "\<forall>r \<in> set df. Dependencies r \<noteq> NaN \<Longrightarrow>
     process_jobs_from_input df = Inr (map (\<lambda>r. (ID r, Name r, tokens r)) df)"
  by (induction df) (simp_all add: dependencies_of_tokens)

lemma process_jobs_from_input_NaN:
  "\<exists>r \<in> set df. Dependencies r = NaN \<Longrightarrow> process_jobs_from_input df = Inl AttributeError"
proof (induction df)
  case Nil
  then show ?case by simp
next
  case (Cons r df)
  show ?case
  proof (cases "Dependencies r = NaN")
    case True
    then show ?thesis by (simp add: dependencies_of_NaN)
  next
    case False
    with Cons show ?thesis by (simp add: dependencies_of_tokens)
  qed
qed

lemma process_jobs_from_input_Inr:
  assumes "process_jobs_from_input df = Inr jobs"
  shows "(\<forall>r \<in> set df. Dependencies r \<noteq> NaN) \<and> jobs = map (\<lambda>r. (ID r, Name r, tokens r)) df"
proof (cases "\<exists>r \<in> set df. Dependencies r = NaN")
  case True
  from process_jobs_from_input_NaN[OF this] assms show ?thesis by simp
next
  case False
  then have "\<forall>r \<in> set df. Dependencies r \<noteq> NaN" by simp
  with process_jobs_from_input_ok[OF this] assms show ?thesis by simp
qed

text \<open>
  On a table without \<^verbatim>\<open>NaN\<close> the parser keeps the ID and the name of every row and
  splits its dependency text at the commas; a cell that is \<^verbatim>\<open>None\<close> or the empty
  string gives the empty list.
\<close>

lemma process_jobs_from_input_splits:
  assumes "\<forall>r \<in> set df. Dependencies r \<noteq> NaN" and "i < length df"
  shows "\<exists>jobs deps. process_jobs_from_input df = Inr jobs \<and> length jobs = length df \<and>
       jobs ! i = (ID (df ! i), Name (df ! i), deps) \<and>
       (case Dependencies (df ! i) of
          Str s \<Rightarrow>
            if s = [] then deps = []
            else join '','' deps = s \<and> (\<forall>t \<in> set deps. CHR '','' \<notin> set t)
        | _ \<Rightarrow> deps = [])"
  using assms process_jobs_from_input_ok[OF assms(1)]
  by (auto simp: tokens_cases join_split_on split: cell.splits dest: split_on_no_sep)

text \<open>
  Claim C6 at a table whose one row has a Dependencies cell left empty that holds
  \<^verbatim>\<open>NaN\<close>: the cell is truthy, so line 20 (and line 30, in the validator, which
  \<^verbatim>\<open>main\<close> runs first) calls \<^verbatim>\<open>.split\<close> on a float and the run ends with
  \<^verbatim>\<open>AttributeError\<close>, where the claim promises the empty dependency list. The same row
  with \<^verbatim>\<open>None\<close> in the cell gives the empty list.
\<close>

theorem C6_missing_cell_NaN_raises:
  "process_jobs_from_input [\<lparr>ID = ''A'', Name = ''a'', Dependencies = NaN\<rparr>] =
     Inl AttributeError \<and>
   validate_dependencies [\<lparr>ID = ''A'', Name = ''a'', Dependencies = NaN\<rparr>] =
     Inl AttributeError \<and>
   main \<lparr>jobs_df = [], jobs_updated = False\<rparr>
     [\<lparr>raw_ID = Some ''A'', raw_Name = Some ''a'', raw_Dependencies = NaN\<rparr>] True
     ''Top to Bottom'' =
     (\<lparr>jobs_df = [], jobs_updated = False\<rparr>, [], Some AttributeError) \<and>
   process_jobs_from_input [\<lparr>ID = ''A'', Name = ''a'', Dependencies = PyNone\<rparr>] =
     Inr [(''A'', ''a'', [])]"
  by (simp add: dependencies_of_def validate_dependencies_def main_def generate_graph_def)

section \<open>Rendering does not depend on the orientation\<close>

lemma those_eq_Some: "those xs = Some ys \<longleftrightarrow> xs = map Some ys"
  by (induction xs arbitrary: ys) (auto split: option.splits)

lemma those_eq_None: "those xs = None \<longleftrightarrow> None \<in> set xs"
  by (induction xs) (auto split: option.splits)

lemma those_enumerate:
  "those (map (\<lambda>(i, n). map_option (g i n) (m n)) (enumerate k ns)) =
     map_option (\<lambda>ls. map (\<lambda>((i, n), l). g i n l) (zip (enumerate k ns) ls)) (those (map m ns))"
proof (induction ns arbitrary: k)
  case Nil
  then show ?case by simp
next
  case (Cons n ns)
  show ?case
  proof (cases "m n")
    case None
    then show ?thesis by simp
  next
    case (Some l)
    then show ?thesis
      by (cases "those (map m ns)") (simp_all add: Cons.IH)
  qed
qed

lemma positions_eq:
  "positions f G layers =
     map_option (\<lambda>ls. map (\<lambda>((i, n), l). (n, f (int i) l)) (zip (enumerate 0 (nodes G)) ls))
       (those (map (map_of layers) (nodes G)))"
  unfolding positions_def by (rule those_enumerate)

lemma orientation_transform_valid:
  "orientation \<in> set orientations \<Longrightarrow> \<exists>f. orientation_transform orientation = Some f"
  by (auto simp: orientations_def orientation_transform_def)

lemma draw_layered_graph_valid:
  assumes "orientation \<in> set orientations"
  shows "\<exists>f. draw_layered_graph G layers names orientation =
     (case those (map (map_of layers) (nodes G)) of
        None \<Rightarrow> Inl KeyError
      | Some ls \<Rightarrow>
          Inr \<lparr>pos = map (\<lambda>((i, n), l). (n, f (int i) l)) (zip (enumerate 0 (nodes G)) ls),
               node_colors = map (\<lambda>l. l mod 6) ls,
               labels = map (\<lambda>n. (n, case map_of names n of Some name \<Rightarrow> name | None \<Rightarrow> n))
                          (nodes G)\<rparr>)"
proof -
  from orientation_transform_valid[OF assms] obtain f
    where f: "orientation_transform orientation = Some f" ..
  show ?thesis
    by (rule exI[of _ f])
      (simp add: f draw_layered_graph_def positions_eq split: option.splits)
qed

lemma map_fst_zip_enumerate:
  "length ls = length ns \<Longrightarrow>
     map fst (map (\<lambda>((i, n), l). (n, f i l)) (zip (enumerate k ns) ls)) = ns"
  by (induction ns arbitrary: k ls) (auto simp: length_Suc_conv)

lemma those_length: "those xs = Some ys \<Longrightarrow> length ys = length xs"
  by (simp add: those_eq_Some)

text \<open>
  Claim C8. For any two of the four orientations \<^verbatim>\<open>visualize_jobs\<close> ends the same
  way: with the same exception, or with the same ordered table; the drawings have the
  same labels, the same colour indices and the same nodes in the same order, so only
  the coordinates can differ.
\<close>

theorem C8_orientation_keeps_table:
  assumes "o1 \<in> set orientations" and "o2 \<in> set orientations"
  shows "map_sum id fst (visualize_jobs df o1) = map_sum id fst (visualize_jobs df o2) \<and>
    map_sum id (\<lambda>(t, d). (labels d, node_colors d, map fst (pos d))) (visualize_jobs df o1) =
    map_sum id (\<lambda>(t, d). (labels d, node_colors d, map fst (pos d))) (visualize_jobs df o2)"
proof (cases "process_jobs_from_input df")
  case (Inl e)
  then show ?thesis by (simp add: visualize_jobs_def)
next
  case jobs: (Inr jobs)
  obtain G names where b0: "build_dependency_graph jobs = (G, names)"
    by (cases "build_dependency_graph jobs")
  note b = jobs b0
  show ?thesis
  proof (cases "assign_layers G")
    case (Inl e)
    with b show ?thesis by (simp add: visualize_jobs_def)
  next
    case (Inr layers0)
    define layers where "layers = map (\<lambda>(n, l). (n, l + 1)) layers0"
    obtain f1 where f1: "draw_layered_graph G layers names o1 =
     (case those (map (map_of layers) (nodes G)) of
        None \<Rightarrow> Inl KeyError
      | Some ls \<Rightarrow>
          Inr \<lparr>pos = map (\<lambda>((i, n), l). (n, f1 (int i) l)) (zip (enumerate 0 (nodes G)) ls),
               node_colors = map (\<lambda>l. l mod 6) ls,
               labels = map (\<lambda>n. (n, case map_of names n of Some name \<Rightarrow> name | None \<Rightarrow> n))
                          (nodes G)\<rparr>)"
      using draw_layered_graph_valid[OF assms(1)] by blast
    obtain f2 where f2: "draw_layered_graph G layers names o2 =
     (case those (map (map_of layers) (nodes G)) of
        None \<Rightarrow> Inl KeyError
      | Some ls \<Rightarrow>
          Inr \<lparr>pos = map (\<lambda>((i, n), l). (n, f2 (int i) l)) (zip (enumerate 0 (nodes G)) ls),
               node_colors = map (\<lambda>l. l mod 6) ls,
               labels = map (\<lambda>n. (n, case map_of names n of Some name \<Rightarrow> name | None \<Rightarrow> n))
                          (nodes G)\<rparr>)"
      using draw_layered_graph_valid[OF assms(2)] by blast
    show ?thesis
    proof (cases "those (map (map_of layers) (nodes G))")
      case None
      with b Inr f1 f2 show ?thesis
        by (simp add: visualize_jobs_def layers_def)
    next
      case (Some ls)
      then have "length ls = length (nodes G)"
        using those_length by fastforce
      then have k: "map fst (map (\<lambda>((i, n), l). (n, f (int i) l)) (zip (enumerate 0 (nodes G)) ls))
          = nodes G" for f
        using map_fst_zip_enumerate[of ls "nodes G" "\<lambda>i. f (int i)"] by simp
      from b Inr f1 f2 Some k[of f1] k[of f2] show ?thesis
        by (simp add: visualize_jobs_def layers_def del: map_map)
    qed
  qed
qed

subsection \<open>Scenario A of the specification\<close>

lemma process_scenario_A: "process_jobs_from_input scenario_A = Inr jobs_A"
  by code_simp

lemma build_scenario_A:
  "build_dependency_graph jobs_A =
     (graph_A, [(''A'', ''Compile''), (''B'', ''Link''), (''C'', ''Test'')])"
  by code_simp

lemma topological_sort_A: "topological_sort graph_A = ([''A'', ''B'', ''C''], None)"
  by code_simp

lemma assign_layers_A: "assign_layers graph_A = Inr [(''A'', 0), (''B'', 1), (''C'', 2)]"
  unfolding assign_layers_def topological_sort_A by code_simp

lemma draw_A:
  "draw_layered_graph graph_A [(''A'', 1), (''B'', 2), (''C'', 3)]
     [(''A'', ''Compile''), (''B'', ''Link''), (''C'', ''Test'')] ''Left to Right'' =
   Inr \<lparr>pos = [(''A'', 1, 0), (''B'', 2, - 1), (''C'', 3, - 2)],
        node_colors = [1, 2, 3],
        labels = [(''A'', ''Compile''), (''B'', ''Link''), (''C'', ''Test'')]\<rparr>"
  by code_simp

lemma table_A:
  "ordered_jobs_df [(''A'', 1), (''B'', 2), (''C'', 3)]
     [(''A'', ''Compile''), (''B'', ''Link''), (''C'', ''Test'')] =
   [(1, ''A'', Some ''Compile''), (2, ''B'', Some ''Link''), (3, ''C'', Some ''Test'')]"
  by code_simp

lemma visualize_A:
  "visualize_jobs scenario_A ''Left to Right'' =
     Inr ([(1, ''A'', Some ''Compile''), (2, ''B'', Some ''Link''), (3, ''C'', Some ''Test'')],
          \<lparr>pos = [(''A'', 1, 0), (''B'', 2, - 1), (''C'', 3, - 2)],
           node_colors = [1, 2, 3],
           labels = [(''A'', ''Compile''), (''B'', ''Link''), (''C'', ''Test'')]\<rparr>)"
  unfolding visualize_jobs_def process_scenario_A
  by (simp add: build_scenario_A assign_layers_A draw_A table_A)

theorem C8_orientation_keeps_table_witness:
  "''Top to Bottom'' \<in> set orientations \<and> ''Left to Right'' \<in> set orientations \<and>
   map_sum id fst (visualize_jobs scenario_A ''Top to Bottom'') =
   map_sum id fst (visualize_jobs scenario_A ''Left to Right'') \<and>
   map_sum id fst (visualize_jobs scenario_A ''Left to Right'') =
   Inr [(1, ''A'', Some ''Compile''), (2, ''B'', Some ''Link''), (3, ''C'', Some ''Test'')]"
proof -
  have o: "''Top to Bottom'' \<in> set orientations" "''Left to Right'' \<in> set orientations"
    by (simp_all add: orientations_def)
  from C8_orientation_keeps_table[OF o, of scenario_A] o show ?thesis
    by (simp add: visualize_A)
qed

section \<open>The builder and whitespace\<close>

text \<open>
  Claim C5 at the table A, B, C with C depending on \<^verbatim>\<open>"A, B"\<close>: the validator trims
  the tokens and accepts the table, the parser and the builder use the second token
  untrimmed, so the graph gets a fourth node \<^verbatim>\<open>" B"\<close> without label and the edge from
  it to C, and no edge from B to C.
\<close>

theorem C5_builder_keeps_whitespace:
  "validate_dependencies
     [\<lparr>ID = ''A'', Name = ''a'', Dependencies = PyNone\<rparr>,
      \<lparr>ID = ''B'', Name = ''b'', Dependencies = PyNone\<rparr>,
      \<lparr>ID = ''C'', Name = ''c'', Dependencies = Str ''A, B''\<rparr>] = Inr [] \<and>
   process_jobs_from_input
     [\<lparr>ID = ''A'', Name = ''a'', Dependencies = PyNone\<rparr>,
      \<lparr>ID = ''B'', Name = ''b'', Dependencies = PyNone\<rparr>,
      \<lparr>ID = ''C'', Name = ''c'', Dependencies = Str ''A, B''\<rparr>] =
     Inr [(''A'', ''a'', []), (''B'', ''b'', []), (''C'', ''c'', [''A'', '' B''])] \<and>
   build_dependency_graph
     [(''A'', ''a'', []), (''B'', ''b'', []), (''C'', ''c'', [''A'', '' B''])] =
   (\<lparr>nx_node = [(''A'', Some ''a''), (''B'', Some ''b''), (''C'', Some ''c''), ('' B'', None)],
     nx_edges = [(''A'', ''C''), ('' B'', ''C'')]\<rparr>,
    [(''A'', ''a''), (''B'', ''b''), (''C'', ''c'')])"
  by code_simp

section \<open>The report of the validator\<close>

lemma validate_loop_NaN:
  "\<exists>r \<in> set rs. Dependencies r = NaN \<Longrightarrow> validate_loop ids rs acc = Inl AttributeError"
proof (induction rs arbitrary: acc)
  case Nil
  then show ?case by simp
next
  case (Cons r rs)
  show ?case
  proof (cases "Dependencies r = NaN")
    case True
    then show ?thesis by (simp add: dependencies_of_NaN)
  next
    case False
    with Cons show ?thesis by (simp add: dependencies_of_tokens)
  qed
qed

lemma validate_loop_ok:
  "\<forall>r \<in> set rs. Dependencies r \<noteq> NaN \<Longrightarrow>
     validate_loop ids rs acc = Inr (report_of ids rs acc)"
  by (induction rs arbitrary: acc) (simp_all add: dependencies_of_tokens)

lemma validate_dependencies_NaN:
  "\<exists>r \<in> set df. Dependencies r = NaN \<Longrightarrow> validate_dependencies df = Inl AttributeError"
  by (simp add: validate_dependencies_def validate_loop_NaN)

lemma validate_dependencies_ok:
  "\<forall>r \<in> set df. Dependencies r \<noteq> NaN \<Longrightarrow>
     validate_dependencies df = Inr (report_of (ID ` set df) df [])"
  by (simp add: validate_dependencies_def validate_loop_ok)

lemma validate_dependencies_Inr:
  assumes "validate_dependencies df = Inr report"
  shows "(\<forall>r \<in> set df. Dependencies r \<noteq> NaN) \<and> report = report_of (ID ` set df) df []"
proof (cases "\<exists>r \<in> set df. Dependencies r = NaN")
  case True
  from validate_dependencies_NaN[OF this] assms show ?thesis by simp
next
  case False
  then have "\<forall>r \<in> set df. Dependencies r \<noteq> NaN" by simp
  with validate_dependencies_ok[OF this] assms show ?thesis by simp
qed

lemma find_append_rev:
  "find P (xs @ [x]) = (case find P xs of None \<Rightarrow> (if P x then Some x else None) | Some y \<Rightarrow> Some y)"
  by (induction xs) auto

lemma update_not_Nil: "AList.update k v al \<noteq> []"
  by (cases al) auto

lemma invalid_deps_Nil:
  "invalid_deps ids ds = [] \<longleftrightarrow> (\<forall>d \<in> set ds. strip d \<in> ids)"
  by (auto simp: invalid_deps_def filter_empty_conv)

lemma report_of_Nil:
  "report_of ids rs acc = [] \<longleftrightarrow>
     acc = [] \<and> (\<forall>r \<in> set rs. invalid_deps ids (tokens r) = [])"
  by (induction rs arbitrary: acc) (auto simp: update_not_Nil)

lemma report_of_map_of:
  "map_of (report_of ids rs acc) k =
     (case find (\<lambda>r. ID r = k \<and> invalid_deps ids (tokens r) \<noteq> []) (rev rs) of
        None \<Rightarrow> map_of acc k
      | Some r \<Rightarrow> Some (invalid_deps ids (tokens r)))"
proof (induction rs arbitrary: acc)
  case Nil
  then show ?case by simp
next
  case (Cons r rs)
  show ?case
    by (cases "find (\<lambda>r. ID r = k \<and> invalid_deps ids (tokens r) \<noteq> []) (rev rs)")
      (auto simp: Cons.IH find_append_rev update_conv')
qed

lemma find_unique_ID:
  assumes "distinct (map ID df)" and "r \<in> set df"
  shows "find (\<lambda>x. ID x = ID r \<and> P x) df = (if P r then Some r else None)"
  using assms
proof (induction df)
  case Nil
  then show ?case by simp
next
  case (Cons a df)
  then show ?case by (cases "a = r") (auto simp: image_iff find_None_iff)
qed

lemma update_fresh: "k \<notin> fst ` set al \<Longrightarrow> AList.update k v al = al @ [(k, v)]"
  by (induction al) auto

lemma report_of_distinct:
  assumes "distinct (map ID rs)" and "fst ` set acc \<inter> ID ` set rs = {}"
  shows "report_of ids rs acc =
           acc @ map (\<lambda>r. (ID r, invalid_deps ids (tokens r)))
                   (filter (\<lambda>r. invalid_deps ids (tokens r) \<noteq> []) rs)"
  using assms
proof (induction rs arbitrary: acc)
  case Nil
  then show ?case by simp
next
  case (Cons r rs)
  show ?case
  proof (cases "invalid_deps ids (tokens r) = []")
    case True
    with Cons show ?thesis by auto
  next
    case False
    from Cons.prems have fresh: "ID r \<notin> fst ` set acc" by auto
    define acc' where "acc' = acc @ [(ID r, invalid_deps ids (tokens r))]"
    have "fst ` set acc' \<inter> ID ` set rs = {}"
      using Cons.prems by (auto simp: acc'_def)
    moreover have "distinct (map ID rs)" using Cons.prems by simp
    ultimately have "report_of ids rs acc' =
           acc' @ map (\<lambda>r. (ID r, invalid_deps ids (tokens r)))
                   (filter (\<lambda>r. invalid_deps ids (tokens r) \<noteq> []) rs)"
      by (rule Cons.IH[rotated])
    with False fresh show ?thesis
      by (simp add: update_fresh acc'_def)
  qed
qed

lemma report_facts:
  defines "bad ids r \<equiv> filter (\<lambda>t. t \<notin> ids) (map strip (tokens r))"
  shows "(report_of (ID ` set df) df [] = [] \<longleftrightarrow>
            (\<forall>r \<in> set df. \<forall>d \<in> set (tokens r). strip d \<in> ID ` set df))"
    and "map_of (report_of (ID ` set df) df []) k =
           map_option (bad (ID ` set df))
             (find (\<lambda>r. ID r = k \<and> (\<exists>d \<in> set (tokens r). strip d \<notin> ID ` set df)) (rev df))"
    and "distinct (map ID df) \<Longrightarrow> r \<in> set df \<Longrightarrow>
           map_of (report_of (ID ` set df) df []) (ID r) =
             (if \<forall>d \<in> set (tokens r). strip d \<in> ID ` set df then None
              else Some (bad (ID ` set df) r))"
    and "distinct (map ID df) \<Longrightarrow>
           report_of (ID ` set df) df [] =
             map (\<lambda>r. (ID r, bad (ID ` set df) r))
               (filter (\<lambda>r. \<exists>d \<in> set (tokens r). strip d \<notin> ID ` set df) df)"
proof -
  have e: "(\<lambda>r. ID r = k \<and> bad (ID ` set df) r \<noteq> []) =
        (\<lambda>r. ID r = k \<and> (\<exists>d \<in> set (tokens r). strip d \<notin> ID ` set df))" for k
    by (auto simp: bad_def filter_empty_conv)
  have e': "(\<lambda>r. bad (ID ` set df) r \<noteq> []) =
        (\<lambda>r. \<exists>d \<in> set (tokens r). strip d \<notin> ID ` set df)"
    by (auto simp: bad_def filter_empty_conv)
  have b: "invalid_deps (ID ` set df) (tokens r) = bad (ID ` set df) r" for r
    by (simp add: invalid_deps_def bad_def)
  show "(report_of (ID ` set df) df [] = [] \<longleftrightarrow>
            (\<forall>r \<in> set df. \<forall>d \<in> set (tokens r). strip d \<in> ID ` set df))"
    by (simp add: report_of_Nil invalid_deps_Nil)
  show "map_of (report_of (ID ` set df) df []) k =
           map_option (bad (ID ` set df))
             (find (\<lambda>r. ID r = k \<and> (\<exists>d \<in> set (tokens r). strip d \<notin> ID ` set df)) (rev df))"
    unfolding report_of_map_of e b by (simp split: option.splits)
  show "map_of (report_of (ID ` set df) df []) (ID r) =
             (if \<forall>d \<in> set (tokens r). strip d \<in> ID ` set df then None
              else Some (bad (ID ` set df) r))"
    if d: "distinct (map ID df)" and r: "r \<in> set df"
  proof -
    from d have "distinct (map ID (rev df))" by (simp add: rev_map[symmetric])
    from find_unique_ID[OF this, of r] r show ?thesis
      unfolding report_of_map_of e b by simp
  qed
  show "report_of (ID ` set df) df [] =
             map (\<lambda>r. (ID r, bad (ID ` set df) r))
               (filter (\<lambda>r. \<exists>d \<in> set (tokens r). strip d \<notin> ID ` set df) df)"
    if d: "distinct (map ID df)"
    using report_of_distinct[OF d, of "[]" "ID ` set df"] unfolding e' b by simp
qed

text \<open>
  Claim C3, as the code has it. On a table with a \<^verbatim>\<open>NaN\<close> Dependencies cell the
  validator raises \<^verbatim>\<open>AttributeError\<close>; on every other table it returns a report.
  The report is empty exactly when every dependency token of every row, trimmed, is the
  ID of a row. Under a key \<open>k\<close> the report holds all the invalid trimmed tokens, in
  order, of the last row with ID \<open>k\<close> that has any, and it has no key otherwise. So
  when the IDs are distinct, a row with invalid tokens is reported under its ID with
  all of them, and a row without is left out.
\<close>

theorem C3_validate_dependencies_report:
  "((\<exists>r \<in> set df. Dependencies r = NaN) \<longrightarrow>
      validate_dependencies df = Inl AttributeError) \<and>
   ((\<forall>r \<in> set df. Dependencies r \<noteq> NaN) \<longrightarrow>
      (\<exists>report. validate_dependencies df = Inr report \<and>
         (report = [] \<longleftrightarrow>
            (\<forall>r \<in> set df. \<forall>d \<in> set (tokens r). strip d \<in> ID ` set df)) \<and>
         (\<forall>k. map_of report k =
            map_option (\<lambda>r. filter (\<lambda>t. t \<notin> ID ` set df) (map strip (tokens r)))
              (find (\<lambda>r. ID r = k \<and> (\<exists>d \<in> set (tokens r). strip d \<notin> ID ` set df))
                 (rev df))) \<and>
         (distinct (map ID df) \<longrightarrow>
            (\<forall>r \<in> set df. map_of report (ID r) =
               (if \<forall>d \<in> set (tokens r). strip d \<in> ID ` set df then None
                else Some (filter (\<lambda>t. t \<notin> ID ` set df) (map strip (tokens r))))))))"
proof (intro conjI impI)
  assume "\<exists>r \<in> set df. Dependencies r = NaN"
  then show "validate_dependencies df = Inl AttributeError"
    by (rule validate_dependencies_NaN)
next
  assume "\<forall>r \<in> set df. Dependencies r \<noteq> NaN"
  then have v: "validate_dependencies df = Inr (report_of (ID ` set df) df [])"
    by (rule validate_dependencies_ok)
  show "\<exists>report. validate_dependencies df = Inr report \<and>
         (report = [] \<longleftrightarrow>
            (\<forall>r \<in> set df. \<forall>d \<in> set (tokens r). strip d \<in> ID ` set df)) \<and>
         (\<forall>k. map_of report k =
            map_option (\<lambda>r. filter (\<lambda>t. t \<notin> ID ` set df) (map strip (tokens r)))
              (find (\<lambda>r. ID r = k \<and> (\<exists>d \<in> set (tokens r). strip d \<notin> ID ` set df))
                 (rev df))) \<and>
         (distinct (map ID df) \<longrightarrow>
            (\<forall>r \<in> set df. map_of report (ID r) =
               (if \<forall>d \<in> set (tokens r). strip d \<in> ID ` set df then None
                else Some (filter (\<lambda>t. t \<notin> ID ` set df) (map strip (tokens r))))))"
    using v report_facts(1)[of df] report_facts(2)[of df] report_facts(3)[of df]
    by (intro exI[of _ "report_of (ID ` set df) df []"]) simp
qed

lemma validate_scenario_B: "validate_dependencies scenario_B = Inr [(''X'', [''Y'', ''Z''])]"
  by code_simp

theorem C3_validate_dependencies_report_witness:
  "NaN \<notin> Dependencies ` set scenario_B \<and>
   distinct (map ID scenario_B) \<and>
   (\<exists>report. validate_dependencies scenario_B = Inr report \<and> report \<noteq> [] \<and>
      map_of report ''X'' = Some [''Y'', ''Z''] \<and> map_of report ''W'' = None)"
proof -
  have n: "\<forall>r \<in> set scenario_B. Dependencies r \<noteq> NaN" by simp
  have d: "distinct (map ID scenario_B)" by simp
  from C3_validate_dependencies_report[of scenario_B] n obtain report where
    r: "validate_dependencies scenario_B = Inr report" by blast
  then have "report = [(''X'', [''Y'', ''Z''])]"
    by (simp add: validate_scenario_B)
  then have "report \<noteq> [] \<and> map_of report ''X'' = Some [''Y'', ''Z''] \<and>
             map_of report ''W'' = None"
    by simp
  moreover have "NaN \<notin> Dependencies ` set scenario_B" by simp
  ultimately show ?thesis using r d by blast
qed

text \<open>
  Two rows with the ID X, the first naming the unknown Y, the second the unknown Z: the
  report holds Z only, so the invalid token Y of the first row is lost.
\<close>

theorem C3_repeated_ID_counterexample:
  "filter (\<lambda>t. t \<notin> {''X''}) (map strip (tokens
      \<lparr>ID = ''X'', Name = ''a'', Dependencies = Str ''Y''\<rparr>)) = [''Y''] \<and>
   validate_dependencies
     [\<lparr>ID = ''X'', Name = ''a'', Dependencies = Str ''Y''\<rparr>,
      \<lparr>ID = ''X'', Name = ''b'', Dependencies = Str ''Z''\<rparr>] = Inr [(''X'', [''Z''])]"
  by code_simp

section \<open>The gate of the page\<close>

lemma report_of_empty_table: "report_of ids [] [] = []"
  by simp

text \<open>
  Claim C7, as the code has it. When the button is pressed and the validator returns a
  report that is not empty, the run writes one error and nothing else: no table, no
  figure, no exception, so \<^verbatim>\<open>visualize_jobs\<close> is not called; the flag is cleared and
  the snapshot stays as it was. The text of the error lists every key of the report with
  the tokens the report holds for it, which are all the invalid trimmed tokens of the
  last row with that ID that has any. When the IDs of the cleaned table are distinct,
  the report is the list of the rows with an invalid token, in table order, each with
  all of its invalid tokens, so the error names them all.
\<close>

theorem C7_invalid_report_is_hard_gate:
  assumes "validate_dependencies (dropna edited) = Inr report" and "report \<noteq> []"
  shows "main s edited True orientation =
    (s\<lparr>jobs_updated := False\<rparr>,
     [StError (''Invalid dependencies found:'' @ [CHR 0x0A] @
        concat (map (\<lambda>(job_id, deps).
                       ''Job ID '' @ job_id @ '' has invalid dependencies: '' @
                       join '', '' deps @ [CHR 0x0A])
                  report))],
     None) \<and>
    jobs_df (fst (main s edited True orientation)) = jobs_df s \<and>
    (\<forall>k. map_of report k =
       map_option
         (\<lambda>r. filter (\<lambda>t. t \<notin> ID ` set (dropna edited)) (map strip (tokens r)))
         (find (\<lambda>r. ID r = k \<and>
                    (\<exists>d \<in> set (tokens r). strip d \<notin> ID ` set (dropna edited)))
            (rev (dropna edited)))) \<and>
    (distinct (map ID (dropna edited)) \<longrightarrow>
       report =
         map (\<lambda>r. (ID r, filter (\<lambda>t. t \<notin> ID ` set (dropna edited)) (map strip (tokens r))))
           (filter (\<lambda>r. \<exists>d \<in> set (tokens r). strip d \<notin> ID ` set (dropna edited))
              (dropna edited)))"
proof -
  define df where "df = dropna edited"
  from validate_dependencies_Inr[OF assms(1)]
  have rep: "report = report_of (ID ` set df) df []"
    by (simp add: df_def)
  with assms(2) have "df \<noteq> []" by auto
  with assms have m: "main s edited True orientation =
    (s\<lparr>jobs_updated := False\<rparr>, [StError (error_message report)], None)"
    by (simp add: main_def generate_graph_def df_def)
  show ?thesis
    unfolding df_def[symmetric] m rep
    using report_facts(2)[of df] report_facts(4)[of df]
    by (simp add: error_message_def)
qed

lemma validate_bad_edit:
  "validate_dependencies [\<lparr>ID = ''X'', Name = ''Bad'', Dependencies = Str ''Y,Z''\<rparr>] =
   Inr [(''X'', [''Y'', ''Z''])]"
  by code_simp

theorem C7_invalid_report_is_hard_gate_witness:
  "validate_dependencies
     (dropna [\<lparr>raw_ID = Some ''X'', raw_Name = Some ''Bad'', raw_Dependencies = Str ''Y,Z''\<rparr>,
              \<lparr>raw_ID = None, raw_Name = Some ''n'', raw_Dependencies = PyNone\<rparr>]) =
     Inr [(''X'', [''Y'', ''Z''])] \<and>
   [(''X'', [''Y'', ''Z''])] \<noteq> [] \<and>
   distinct (map ID
     (dropna [\<lparr>raw_ID = Some ''X'', raw_Name = Some ''Bad'', raw_Dependencies = Str ''Y,Z''\<rparr>,
              \<lparr>raw_ID = None, raw_Name = Some ''n'', raw_Dependencies = PyNone\<rparr>])) \<and>
   main \<lparr>jobs_df = scenario_B, jobs_updated = True\<rparr>
     [\<lparr>raw_ID = Some ''X'', raw_Name = Some ''Bad'', raw_Dependencies = Str ''Y,Z''\<rparr>,
      \<lparr>raw_ID = None, raw_Name = Some ''n'', raw_Dependencies = PyNone\<rparr>]
     True ''Left to Right'' =
   (\<lparr>jobs_df = scenario_B, jobs_updated = False\<rparr>,
    [StError (''Invalid dependencies found:'' @ [CHR 0x0A] @
              ''Job ID X has invalid dependencies: Y, Z'' @ [CHR 0x0A])],
    None)"
proof -
  have h: "validate_dependencies
     (dropna [\<lparr>raw_ID = Some ''X'', raw_Name = Some ''Bad'', raw_Dependencies = Str ''Y,Z''\<rparr>,
              \<lparr>raw_ID = None, raw_Name = Some ''n'', raw_Dependencies = PyNone\<rparr>]) =
     Inr [(''X'', [''Y'', ''Z''])]"
    by (simp add: validate_bad_edit)
  have n: "[(''X'', [''Y'', ''Z''])] \<noteq> []" by simp
  have d: "distinct (map ID
     (dropna [\<lparr>raw_ID = Some ''X'', raw_Name = Some ''Bad'', raw_Dependencies = Str ''Y,Z''\<rparr>,
              \<lparr>raw_ID = None, raw_Name = Some ''n'', raw_Dependencies = PyNone\<rparr>]))"
    by simp
  note t = C7_invalid_report_is_hard_gate[OF h n,
      of "\<lparr>jobs_df = scenario_B, jobs_updated = True\<rparr>" "''Left to Right''"]
  from t[THEN conjunct1] have "main \<lparr>jobs_df = scenario_B, jobs_updated = True\<rparr>
     [\<lparr>raw_ID = Some ''X'', raw_Name = Some ''Bad'', raw_Dependencies = Str ''Y,Z''\<rparr>,
      \<lparr>raw_ID = None, raw_Name = Some ''n'', raw_Dependencies = PyNone\<rparr>]
     True ''Left to Right'' =
   (\<lparr>jobs_df = scenario_B, jobs_updated = False\<rparr>,
    [StError (''Invalid dependencies found:'' @ [CHR 0x0A] @
              ''Job ID X has invalid dependencies: Y, Z'' @ [CHR 0x0A])],
    None)"
    by simp
  with h n d show ?thesis by blast
qed

text \<open>
  The two rows with the ID X again: the validator returns a report that is not empty, and
  the error of the page names Z only; Y, the invalid token of the first row, is in no
  line of it.
\<close>

lemma validate_repeated_X:
  "validate_dependencies
     [\<lparr>ID = ''X'', Name = ''a'', Dependencies = Str ''Y''\<rparr>,
      \<lparr>ID = ''X'', Name = ''b'', Dependencies = Str ''Z''\<rparr>] = Inr [(''X'', [''Z''])]"
  by code_simp

theorem C7_repeated_ID_counterexample:
  "filter (\<lambda>t. t \<notin> {''X''}) (map strip (tokens
      \<lparr>ID = ''X'', Name = ''a'', Dependencies = Str ''Y''\<rparr>)) = [''Y''] \<and>
   main \<lparr>jobs_df = [], jobs_updated = False\<rparr>
     [\<lparr>raw_ID = Some ''X'', raw_Name = Some ''a'', raw_Dependencies = Str ''Y''\<rparr>,
      \<lparr>raw_ID = Some ''X'', raw_Name = Some ''b'', raw_Dependencies = Str ''Z''\<rparr>]
     True ''Top to Bottom'' =
   (\<lparr>jobs_df = [], jobs_updated = False\<rparr>,
    [StError (''Invalid dependencies found:'' @ [CHR 0x0A] @
              ''Job ID X has invalid dependencies: Z'' @ [CHR 0x0A])],
    None)"
proof -
  have "filter (\<lambda>t. t \<notin> {''X''}) (map strip (tokens
      \<lparr>ID = ''X'', Name = ''a'', Dependencies = Str ''Y''\<rparr>)) = [''Y'']"
    by code_simp
  then show ?thesis
    by (simp add: main_def generate_graph_def validate_repeated_X error_message_def)
qed

section \<open>The builder keeps the graph well formed\<close>

lemma nodes_touch_node:
  "nodes (touch_node n G) = (if n \<in> set (nodes G) then nodes G else nodes G @ [n])"
  by (simp add: touch_node_def nodes_def)

lemma edges_touch_node [simp]: "nx_edges (touch_node n G) = nx_edges G"
  by (simp add: touch_node_def)

lemma nodes_add_node:
  "nodes (add_node n l G) = (if n \<in> set (nodes G) then nodes G else nodes G @ [n])"
  by (simp add: add_node_def nodes_def update_keys)

lemma edges_add_node [simp]: "nx_edges (add_node n l G) = nx_edges G"
  by (simp add: add_node_def)

lemma nodes_add_edge:
  "nodes (add_edge u v G) = nodes (touch_node v (touch_node u G))"
  by (simp add: add_edge_def Let_def nodes_def)

lemma edges_add_edge:
  "nx_edges (add_edge u v G) =
     (if (u, v) \<in> set (nx_edges G) then nx_edges G else nx_edges G @ [(u, v)])"
  by (simp add: add_edge_def Let_def)

lemma set_nodes_add_edge: "set (nodes (add_edge u v G)) = insert u (insert v (set (nodes G)))"
  by (auto simp: nodes_add_edge nodes_touch_node)

lemma wf_digraph_empty: "wf_digraph DiGraph"
  by (simp add: wf_digraph_def DiGraph_def nodes_def)

lemma wf_digraph_add_node: "wf_digraph G \<Longrightarrow> wf_digraph (add_node n l G)"
  by (auto simp: wf_digraph_def nodes_add_node)

lemma wf_digraph_add_edge: "wf_digraph G \<Longrightarrow> wf_digraph (add_edge u v G)"
  by (auto simp: wf_digraph_def nodes_add_edge nodes_touch_node edges_add_edge)

lemma wf_digraph_add_edges: "wf_digraph G \<Longrightarrow> wf_digraph (add_edges j ds G)"
  by (induction ds arbitrary: G) (auto simp: wf_digraph_add_edge)

lemma wf_digraph_build_loop:
  "wf_digraph (fst st) \<Longrightarrow> wf_digraph (fst (build_loop jobs st))"
proof (induction jobs st rule: build_loop.induct)
  case (1 G names)
  then show ?case by simp
next
  case (2 job_id job_name dependencies jobs G names)
  then show ?case by (simp add: wf_digraph_add_edges wf_digraph_add_node)
qed

lemma wf_digraph_build: "wf_digraph (fst (build_dependency_graph jobs))"
  by (simp add: build_dependency_graph_def wf_digraph_build_loop wf_digraph_empty)

section \<open>Repeated dependency tokens\<close>

text \<open>An edge that is stored stays stored, and adding it again changes nothing.\<close>

lemma add_edge_known: "has_edge G u v \<Longrightarrow> add_edge u v G = G"
  by (simp add: has_edge_def add_edge_def touch_node_def)

lemma has_edge_add_edge_same: "has_edge (add_edge u v G) u v"
  by (auto simp: has_edge_def set_nodes_add_edge edges_add_edge)

lemma has_edge_add_edge: "has_edge G u v \<Longrightarrow> has_edge (add_edge u' v' G) u v"
  by (auto simp: has_edge_def set_nodes_add_edge edges_add_edge)

lemma has_edge_add_edges: "has_edge G u v \<Longrightarrow> has_edge (add_edges j ds G) u v"
  by (induction ds arbitrary: G) (auto simp: has_edge_add_edge)

lemma add_edges_append: "add_edges j (xs @ ys) G = add_edges j ys (add_edges j xs G)"
  by (induction xs arbitrary: G) auto

lemma add_edges_repeated:
  "add_edges j (ds1 @ d # ds2 @ d # ds3) G = add_edges j (ds1 @ d # ds2 @ ds3) G"
proof (cases "d = []")
  case True
  then show ?thesis by (simp add: add_edges_append)
next
  case False
  have "has_edge (add_edges j ds2 (add_edge d j (add_edges j ds1 G))) d j"
    by (rule has_edge_add_edges) (rule has_edge_add_edge_same)
  with False show ?thesis
    by (simp add: add_edges_append add_edge_known)
qed

lemma build_loop_append:
  "build_loop (xs @ ys) st = build_loop ys (build_loop xs st)"
  by (induction xs st rule: build_loop.induct) auto

text \<open>
  Claim C9. A job that names the token \<open>d\<close> a second time, anywhere after the first,
  gives the same graph and the same name dict as the job without the second occurrence,
  hence the same outcome of \<^verbatim>\<open>assign_layers\<close>.
\<close>

theorem C9_repeated_token_same_graph:
  "build_dependency_graph
     (pre @ [(job_id, job_name, ds1 @ [d] @ ds2 @ [d] @ ds3)] @ post) =
   build_dependency_graph
     (pre @ [(job_id, job_name, ds1 @ [d] @ ds2 @ ds3)] @ post) \<and>
   assign_layers (fst (build_dependency_graph
     (pre @ [(job_id, job_name, ds1 @ [d] @ ds2 @ [d] @ ds3)] @ post))) =
   assign_layers (fst (build_dependency_graph
     (pre @ [(job_id, job_name, ds1 @ [d] @ ds2 @ ds3)] @ post)))"
proof -
  have "build_dependency_graph
     (pre @ [(job_id, job_name, ds1 @ [d] @ ds2 @ [d] @ ds3)] @ post) =
   build_dependency_graph
     (pre @ [(job_id, job_name, ds1 @ [d] @ ds2 @ ds3)] @ post)"
    unfolding build_dependency_graph_def build_loop_append
    by (cases "build_loop pre (DiGraph, [])") (simp add: add_edges_repeated)
  then show ?thesis by simp
qed

section \<open>The topological order is right\<close>

lemma im_ok_update:
  assumes "im_ok cnt im" and "1 < cnt c"
  shows "im_ok (cnt(c := cnt c - 1)) (AList.update c (int (cnt c) - 1) im)"
  using assms by (auto simp: im_ok_def distinct_update update_conv' of_nat_diff)

lemma im_ok_delete:
  assumes "im_ok cnt im"
  shows "im_ok (cnt(c := 0)) (AList.delete c (AList.update c x im))"
  using assms by (auto simp: im_ok_def distinct_update distinct_delete delete_conv' update_conv')

lemma decrement_children_ok:
  assumes "im_ok cnt im" and "distinct cs" and "\<forall>c \<in> set cs. 0 < cnt c"
  shows "\<exists>im'. decrement_children cs im zi = Inr (im', zi @ filter (\<lambda>c. cnt c = 1) cs) \<and>
           im_ok (\<lambda>v. if v \<in> set cs then cnt v - 1 else cnt v) im'"
  using assms
proof (induction cs arbitrary: cnt im zi)
  case Nil
  then show ?case by simp
next
  case (Cons c cs)
  from Cons.prems have look: "map_of im c = Some (int (cnt c))"
    by (simp add: im_ok_def)
  show ?case
  proof (cases "cnt c = 1")
    case True
    define cnt1 where "cnt1 = cnt(c := 0)"
    have ok1: "im_ok cnt1 (AList.delete c (AList.update c 0 im))"
      unfolding cnt1_def using Cons.prems(1) by (rule im_ok_delete)
    have pos1: "\<forall>c' \<in> set cs. 0 < cnt1 c'"
      using Cons.prems by (auto simp: cnt1_def)
    from Cons.IH[OF ok1 _ pos1, of "zi @ [c]"] Cons.prems(2)
    obtain im' where r: "decrement_children cs (AList.delete c (AList.update c 0 im)) (zi @ [c])
          = Inr (im', (zi @ [c]) @ filter (\<lambda>c. cnt1 c = 1) cs)"
      and ok: "im_ok (\<lambda>v. if v \<in> set cs then cnt1 v - 1 else cnt1 v) im'"
      by auto
    have f: "filter (\<lambda>c. cnt1 c = 1) cs = filter (\<lambda>c. cnt c = 1) cs"
      using Cons.prems(2) by (intro filter_cong) (auto simp: cnt1_def)
    have g: "(\<lambda>v. if v \<in> set cs then cnt1 v - 1 else cnt1 v) =
             (\<lambda>v. if v \<in> set (c # cs) then cnt v - 1 else cnt v)"
      using True by (auto simp: cnt1_def fun_eq_iff)
    from r ok look True show ?thesis
      by (simp add: f[simplified] g)
  next
    case False
    with Cons.prems have big: "1 < cnt c" by (auto simp: less_Suc_eq_le Suc_le_eq dest: le_neq_implies_less)
    define cnt1 where "cnt1 = cnt(c := cnt c - 1)"
    have ok1: "im_ok cnt1 (AList.update c (int (cnt c) - 1) im)"
      unfolding cnt1_def using Cons.prems(1) big by (rule im_ok_update)
    have pos1: "\<forall>c' \<in> set cs. 0 < cnt1 c'"
      using Cons.prems by (auto simp: cnt1_def)
    from Cons.IH[OF ok1 _ pos1, of zi] Cons.prems(2)
    obtain im' where r: "decrement_children cs (AList.update c (int (cnt c) - 1) im) zi
          = Inr (im', zi @ filter (\<lambda>c. cnt1 c = 1) cs)"
      and ok: "im_ok (\<lambda>v. if v \<in> set cs then cnt1 v - 1 else cnt1 v) im'"
      by auto
    have f: "filter (\<lambda>c. cnt1 c = 1) cs = filter (\<lambda>c. cnt c = 1) cs"
      using Cons.prems(2) by (intro filter_cong) (auto simp: cnt1_def)
    have g: "(\<lambda>v. if v \<in> set cs then cnt1 v - 1 else cnt1 v) =
             (\<lambda>v. if v \<in> set (c # cs) then cnt v - 1 else cnt v)"
      using Cons.prems(2) by (auto simp: cnt1_def fun_eq_iff)
    from r ok look False big show ?thesis
      by (simp add: f[simplified] g)
  qed
qed

lemma mem_predecessors: "u \<in> set (predecessors G v) \<longleftrightarrow> (u, v) \<in> set (nx_edges G)"
  by (force simp: predecessors_def)

lemma mem_neighbors: "v \<in> set (neighbors G u) \<longleftrightarrow> (u, v) \<in> set (nx_edges G)"
  by (force simp: neighbors_def)

lemma distinct_predecessors: "wf_digraph G \<Longrightarrow> distinct (predecessors G v)"
  by (auto simp: wf_digraph_def predecessors_def distinct_map inj_on_def prod_eq_iff)

lemma distinct_neighbors: "wf_digraph G \<Longrightarrow> distinct (neighbors G u)"
  by (auto simp: wf_digraph_def neighbors_def distinct_map inj_on_def prod_eq_iff)

lemma remaining_zero_iff: "remaining G P v = 0 \<longleftrightarrow> set (predecessors G v) \<subseteq> P"
  by (auto simp: remaining_def filter_empty_conv)

lemma remaining_mono: "P \<subseteq> Q \<Longrightarrow> remaining G Q v \<le> remaining G P v"
proof -
  assume "P \<subseteq> Q"
  then have "filter (\<lambda>u. u \<notin> Q) (predecessors G v) =
             filter (\<lambda>u. u \<notin> Q) (filter (\<lambda>u. u \<notin> P) (predecessors G v))"
    by (auto intro: filter_cong)
  then show ?thesis
    unfolding remaining_def by (metis length_filter_le)
qed

lemma length_filter_insert:
  "distinct xs \<Longrightarrow> n \<notin> P \<Longrightarrow>
     length (filter (\<lambda>u. u \<noteq> n \<and> u \<notin> P) xs) =
       (if n \<in> set xs then length (filter (\<lambda>u. u \<notin> P) xs) - 1
        else length (filter (\<lambda>u. u \<notin> P) xs))"
proof (induction xs)
  case Nil
  then show ?case by simp
next
  case (Cons x xs)
  show ?case
  proof (cases "x = n")
    case True
    with Cons.prems have "n \<notin> set xs" by simp
    then have "filter (\<lambda>u. u \<noteq> n \<and> u \<notin> P) xs = filter (\<lambda>u. u \<notin> P) xs"
      by (auto intro: filter_cong)
    with True Cons.prems show ?thesis by simp
  next
    case False
    show ?thesis
    proof (cases "n \<in> set xs")
      case True
      with Cons.prems have "n \<in> set (filter (\<lambda>u. u \<notin> P) xs)" by simp
      then have "0 < length (filter (\<lambda>u. u \<notin> P) xs)"
        by (rule length_pos_if_in_set)
      with Cons False True show ?thesis by simp
    next
      case n: False
      with Cons False show ?thesis by simp
    qed
  qed
qed

lemma remaining_insert:
  "wf_digraph G \<Longrightarrow> n \<notin> P \<Longrightarrow>
     remaining G (insert n P) v =
       (if v \<in> set (neighbors G n) then remaining G P v - 1 else remaining G P v)"
  unfolding remaining_def
  by (simp add: length_filter_insert distinct_predecessors mem_predecessors mem_neighbors)

lemma remaining_pos_neighbor:
  "v \<in> set (neighbors G n) \<Longrightarrow> n \<notin> P \<Longrightarrow> 0 < remaining G P v"
  by (auto simp: remaining_def mem_neighbors mem_predecessors[symmetric] filter_empty_conv)

lemma process_node_ok:
  assumes "wf_digraph G" and "im_ok (remaining G P) im" and "n \<notin> P"
  shows "\<exists>im'. decrement_children (neighbors G n) im zi =
             Inr (im', zi @ filter (\<lambda>c. remaining G P c = 1) (neighbors G n)) \<and>
           im_ok (remaining G (insert n P)) im'"
proof -
  have pos: "\<forall>c \<in> set (neighbors G n). 0 < remaining G P c"
    using assms(3) by (auto intro: remaining_pos_neighbor)
  have e: "(\<lambda>v. if v \<in> set (neighbors G n) then remaining G P v - 1 else remaining G P v) =
           remaining G (insert n P)"
    using assms by (auto simp: fun_eq_iff remaining_insert)
  from decrement_children_ok[OF assms(2) distinct_neighbors[OF assms(1)] pos, of zi]
  show ?thesis by (simp add: e)
qed

lemma process_generation_ok:
  assumes "wf_digraph G" and "im_ok (remaining G P) im"
    and "distinct ns" and "set ns \<subseteq> set (nodes G)" and "set ns \<inter> P = {}"
    and "P0 \<subseteq> P" and "distinct zi"
    and "set zi = {v. 0 < remaining G P0 v \<and> remaining G P v = 0}"
  shows "\<exists>im' zi'. process_generation G ns im zi = Inr (im', zi') \<and>
           im_ok (remaining G (P \<union> set ns)) im' \<and> distinct zi' \<and>
           set zi' = {v. 0 < remaining G P0 v \<and> remaining G (P \<union> set ns) v = 0}"
  using assms(2-)
proof (induction ns arbitrary: P im zi)
  case Nil
  then show ?case by simp
next
  case (Cons n ns)
  note wf = assms(1)
  from Cons.prems have n: "n \<in> set (nodes G)" "n \<notin> P" "n \<notin> set ns"
    by auto
  define zi1 where "zi1 = zi @ filter (\<lambda>c. remaining G P c = 1) (neighbors G n)"
  from process_node_ok[OF wf Cons.prems(1) n(2), of zi]
  obtain im1 where s: "decrement_children (neighbors G n) im zi = Inr (im1, zi1)"
    and ok1: "im_ok (remaining G (insert n P)) im1"
    unfolding zi1_def by blast
  have d1: "distinct zi1"
    unfolding zi1_def using Cons.prems(6,7) distinct_neighbors[OF wf, of n]
    by auto
  have s1: "set zi1 = {v. 0 < remaining G P0 v \<and> remaining G (insert n P) v = 0}"
  proof (intro set_eqI iffI)
    fix v
    assume "v \<in> set zi1"
    then consider "v \<in> set zi" | "v \<in> set (neighbors G n)" "remaining G P v = 1"
      by (auto simp: zi1_def)
    then show "v \<in> {v. 0 < remaining G P0 v \<and> remaining G (insert n P) v = 0}"
    proof cases
      case 1
      with Cons.prems(7) show ?thesis
        by (simp add: remaining_insert[OF wf n(2)])
    next
      case 2
      from remaining_mono[OF Cons.prems(5), of G v] 2
      show ?thesis
        by (simp add: remaining_insert[OF wf n(2)])
    qed
  next
    fix v
    assume "v \<in> {v. 0 < remaining G P0 v \<and> remaining G (insert n P) v = 0}"
    then have a: "0 < remaining G P0 v" and b: "remaining G (insert n P) v = 0"
      by auto
    show "v \<in> set zi1"
    proof (cases "remaining G P v = 0")
      case True
      with a Cons.prems(7) show ?thesis by (simp add: zi1_def)
    next
      case False
      with b have "v \<in> set (neighbors G n) \<and> remaining G P v = 1"
        by (auto simp: remaining_insert[OF wf n(2)] split: if_splits)
      then show ?thesis by (simp add: zi1_def)
    qed
  qed
  have "\<exists>im' zi'. process_generation G ns im1 zi1 = Inr (im', zi') \<and>
           im_ok (remaining G (insert n P \<union> set ns)) im' \<and> distinct zi' \<and>
           set zi' = {v. 0 < remaining G P0 v \<and> remaining G (insert n P \<union> set ns) v = 0}"
  proof (rule Cons.IH[OF ok1 _ _ _ _ d1 s1])
    show "distinct ns" using Cons.prems(2) by simp
    show "set ns \<subseteq> set (nodes G)" using Cons.prems(3) by simp
    show "set ns \<inter> insert n P = {}" using Cons.prems(4) n(3) by auto
    show "P0 \<subseteq> insert n P" using Cons.prems(5) by auto
  qed
  moreover have "insert n P \<union> set ns = P \<union> set (n # ns)"
    by auto
  ultimately show ?case
    using n(1) s by simp
qed

lemma topo_from_append:
  "topo_from G P (xs @ ys) \<longleftrightarrow> topo_from G P xs \<and> topo_from G (P \<union> set xs) ys"
  by (induction xs arbitrary: P) auto

lemma topo_from_all:
  "\<forall>v \<in> set xs. set (predecessors G v) \<subseteq> P \<Longrightarrow> P \<subseteq> Q \<Longrightarrow> topo_from G Q xs"
proof (induction xs arbitrary: Q)
  case Nil
  then show ?case by simp
next
  case (Cons x xs)
  from Cons.prems have "P \<subseteq> insert x Q" by auto
  with Cons show ?case by auto
qed

lemma remaining_pos_node:
  "wf_digraph G \<Longrightarrow> 0 < remaining G P v \<Longrightarrow> v \<in> set (nodes G)"
proof -
  assume wf: "wf_digraph G" and "0 < remaining G P v"
  then obtain u where "u \<in> set (predecessors G v)"
    by (auto simp: remaining_def filter_empty_conv)
  then have "(u, v) \<in> set (nx_edges G)" by (simp add: mem_predecessors)
  with wf show ?thesis by (auto simp: wf_digraph_def)
qed

lemma im_ok_Nil: "im_ok cnt im \<Longrightarrow> im = [] \<longleftrightarrow> (\<forall>v. cnt v = 0)"
proof -
  assume ok: "im_ok cnt im"
  have "im = [] \<longleftrightarrow> map_of im = Map.empty" by simp
  also have "\<dots> \<longleftrightarrow> (\<forall>v. map_of im v = None)" by (auto simp: fun_eq_iff)
  also have "\<dots> \<longleftrightarrow> (\<forall>v. cnt v = 0)" using ok by (auto simp: im_ok_def)
  finally show ?thesis .
qed

declare generations.simps [simp del]

lemma generations_ok:
  assumes "wf_digraph G" and "im_ok (remaining G P) im" and "distinct zi"
    and "set zi \<inter> P = {}"
    and "P \<union> set zi = {v \<in> set (nodes G). remaining G P v = 0}"
  shows "\<exists>gs e. generations G im zi = (gs, e) \<and> distinct (concat gs) \<and>
           set (concat gs) \<inter> P = {} \<and> topo_from G P (concat gs) \<and>
           P \<union> set (concat gs) =
             {v \<in> set (nodes G). remaining G (P \<union> set (concat gs)) v = 0} \<and>
           e = (if P \<union> set (concat gs) = set (nodes G) then None
                else Some NetworkXUnfeasible)"
  using assms
proof (induction G im zi arbitrary: P rule: generations.induct)
  case (1 G im zi)
  note wf = "1.prems"(1)
  show ?case
  proof (cases "zi = []")
    case True
    with "1.prems"(5) have P: "P = {v \<in> set (nodes G). remaining G P v = 0}" by simp
    have "im = [] \<longleftrightarrow> P = set (nodes G)"
    proof
      assume "im = []"
      with im_ok_Nil[OF "1.prems"(2)] have "\<forall>v. remaining G P v = 0" by simp
      with P show "P = set (nodes G)" by auto
    next
      assume all: "P = set (nodes G)"
      have "remaining G P v = 0" for v
      proof (cases "v \<in> set (nodes G)")
        case True
        with all P show ?thesis by auto
      next
        case False
        with remaining_pos_node[OF wf, of P v] show ?thesis by auto
      qed
      with im_ok_Nil[OF "1.prems"(2)] show "im = []" by simp
    qed
    with True P show ?thesis
      by (subst generations.simps) auto
  next
    case False
    from "1.prems"(5) have sub: "set zi \<subseteq> set (nodes G)" by auto
    have e0: "set [] = {v. 0 < remaining G P v \<and> remaining G P v = 0}" by auto
    from process_generation_ok[OF wf "1.prems"(2,3) sub "1.prems"(4) subset_refl _ e0]
    obtain im' zi' where pg: "process_generation G zi im [] = Inr (im', zi')"
      and ok': "im_ok (remaining G (P \<union> set zi)) im'" and d': "distinct zi'"
      and s': "set zi' = {v. 0 < remaining G P v \<and> remaining G (P \<union> set zi) v = 0}"
      by auto
    have dis': "set zi' \<inter> (P \<union> set zi) = {}"
      using s' "1.prems"(5) by auto
    have cl': "(P \<union> set zi) \<union> set zi' =
        {v \<in> set (nodes G). remaining G (P \<union> set zi) v = 0}"
    proof (intro set_eqI iffI)
      fix v
      assume "v \<in> (P \<union> set zi) \<union> set zi'"
      then consider "v \<in> P \<union> set zi" | "v \<in> set zi'" by auto
      then show "v \<in> {v \<in> set (nodes G). remaining G (P \<union> set zi) v = 0}"
      proof cases
        case 1
        with "1.prems"(5) have "v \<in> set (nodes G)" "remaining G P v = 0" by auto
        with remaining_mono[of P "P \<union> set zi" G v] show ?thesis by simp
      next
        case 2
        with s' remaining_pos_node[OF wf, of P v] show ?thesis by simp
      qed
    next
      fix v
      assume "v \<in> {v \<in> set (nodes G). remaining G (P \<union> set zi) v = 0}"
      then have v: "v \<in> set (nodes G)" "remaining G (P \<union> set zi) v = 0" by auto
      show "v \<in> (P \<union> set zi) \<union> set zi'"
      proof (cases "remaining G P v = 0")
        case True
        with v "1.prems"(5) show ?thesis by auto
      next
        case False
        with v s' show ?thesis by simp
      qed
    qed
    from "1.IH"[OF False pg refl wf ok' d' dis' cl']
    obtain gs e where g: "generations G im' zi' = (gs, e)"
      and dg: "distinct (concat gs)" and ig: "set (concat gs) \<inter> (P \<union> set zi) = {}"
      and tg: "topo_from G (P \<union> set zi) (concat gs)"
      and cg: "(P \<union> set zi) \<union> set (concat gs) =
             {v \<in> set (nodes G). remaining G ((P \<union> set zi) \<union> set (concat gs)) v = 0}"
      and eg: "e = (if (P \<union> set zi) \<union> set (concat gs) = set (nodes G) then None
                else Some NetworkXUnfeasible)"
      by blast
    have r: "generations G im zi = (zi # gs, e)"
      using False pg g by (subst generations.simps) simp
    have tz: "topo_from G P zi"
    proof (rule topo_from_all[OF _ subset_refl])
      show "\<forall>v \<in> set zi. set (predecessors G v) \<subseteq> P"
        using "1.prems"(5) by (auto simp: remaining_zero_iff[symmetric])
    qed
    define order where "order = concat (zi # gs)"
    have u: "P \<union> set order = (P \<union> set zi) \<union> set (concat gs)"
      by (auto simp: order_def)
    have c1: "distinct order"
      using dg "1.prems"(3) ig by (auto simp: order_def)
    have c2: "set order \<inter> P = {}"
      using ig "1.prems"(4) by (auto simp: order_def)
    have c3: "topo_from G P order"
      using tz tg by (simp add: topo_from_append order_def)
    have c4: "P \<union> set order = {v \<in> set (nodes G). remaining G (P \<union> set order) v = 0}"
      using cg unfolding u .
    have c5: "e = (if P \<union> set order = set (nodes G) then None else Some NetworkXUnfeasible)"
      using eg unfolding u .
    from r c1 c2 c3 c4 c5 show ?thesis
      unfolding order_def by blast
  qed
qed

lemma map_of_filter_graph:
  "map_of (filter Q (map (\<lambda>v. (v, f v)) ns)) v =
     (if v \<in> set ns \<and> Q (v, f v) then Some (f v) else None)"
  by (induction ns) auto

lemma map_fst_filter_graph:
  "map fst (filter Q (map (\<lambda>v. (v, f v)) ns)) = filter (\<lambda>v. Q (v, f v)) ns"
  by (induction ns) auto

lemma remaining_empty: "remaining G {} v = length (predecessors G v)"
  by (simp add: remaining_def)

lemma topological_sort_ok:
  assumes wf: "wf_digraph G"
  shows "\<exists>order e. topological_sort G = (order, e) \<and> distinct order \<and>
           topo_from G {} order \<and>
           set order = {v \<in> set (nodes G). remaining G (set order) v = 0} \<and>
           e = (if set order = set (nodes G) then None else Some NetworkXUnfeasible)"
proof -
  define im where "im = filter (\<lambda>(v, d). d > 0) (in_degree_view G)"
  define zi where "zi = map fst (filter (\<lambda>(v, d). d = 0) (in_degree_view G))"
  from wf have dn: "distinct (nodes G)" by (simp add: wf_digraph_def)
  have "im_ok (remaining G {}) im"
    unfolding im_ok_def
  proof (intro conjI allI)
    show "distinct (map fst im)"
      using dn by (simp add: im_def in_degree_view_def map_fst_filter_graph)
    fix v
    show "map_of im v = (if 0 < remaining G {} v then Some (int (remaining G {} v)) else None)"
      using remaining_pos_node[OF wf, of "{}" v]
      by (auto simp: im_def in_degree_view_def map_of_filter_graph in_degree_def remaining_empty)
  qed
  moreover have "distinct zi"
    using dn by (simp add: zi_def in_degree_view_def map_fst_filter_graph)
  moreover have "set zi \<inter> {} = {}" by simp
  moreover have "{} \<union> set zi = {v \<in> set (nodes G). remaining G {} v = 0}"
    by (auto simp: zi_def in_degree_view_def map_fst_filter_graph in_degree_def remaining_empty)
  ultimately obtain gs e where "generations G im zi = (gs, e)" "distinct (concat gs)"
    "topo_from G {} (concat gs)"
    "{} \<union> set (concat gs) =
       {v \<in> set (nodes G). remaining G ({} \<union> set (concat gs)) v = 0}"
    "e = (if {} \<union> set (concat gs) = set (nodes G) then None else Some NetworkXUnfeasible)"
    using generations_ok[OF wf, of "{}" im zi] by blast
  then show ?thesis
    by (simp add: topological_sort_def topological_generations_def im_def zi_def)
qed

section \<open>The layers are right\<close>

lemma layer_ok_nonneg:
  assumes "layer_ok G L v"
  shows "\<exists>l. L v = Some l \<and> 0 \<le> l"
proof -
  from assms obtain ls where ls: "\<forall>l \<in> set ls. 0 \<le> l"
    and v: "L v = Some (if ls = [] then 0 else Max (set ls) + 1)"
    by (auto simp: layer_ok_def)
  show ?thesis
  proof (cases ls)
    case Nil
    with v show ?thesis by simp
  next
    case (Cons a as)
    then have ne: "ls \<noteq> []" by simp
    with ls have "0 \<le> Max (set ls)"
      by (cases ls) (auto simp: Max_ge_iff)
    with v ne show ?thesis by simp
  qed
qed

lemma layer_ok_update:
  assumes "layer_ok G L v" and "L n = None"
  shows "layer_ok G (L(n \<mapsto> x)) v"
proof -
  from assms(1) obtain ls where m: "map L (predecessors G v) = map Some ls"
    and ls: "\<forall>l \<in> set ls. 0 \<le> l"
    and v: "L v = Some (if ls = [] then 0 else Max (set ls) + 1)"
    by (auto simp: layer_ok_def)
  from v assms(2) have "v \<noteq> n" by auto
  have "\<forall>u \<in> set (predecessors G v). L u \<noteq> None"
  proof
    fix u
    assume "u \<in> set (predecessors G v)"
    then have "L u \<in> set (map L (predecessors G v))" by simp
    with m show "L u \<noteq> None" by auto
  qed
  with assms(2) have "\<forall>u \<in> set (predecessors G v). u \<noteq> n" by auto
  then have "map (L(n \<mapsto> x)) (predecessors G v) = map L (predecessors G v)"
    by (intro map_cong) auto
  with m ls v \<open>v \<noteq> n\<close> show ?thesis
    unfolding layer_ok_def by (intro exI[of _ ls]) simp
qed

lemma assign_loop_step:
  assumes "map (map_of layers) (predecessors G n) = map Some ls"
  shows "assign_loop G (n # order) layers =
           assign_loop G order
             (AList.update n (if ls = [] then 0 else Max (set ls) + 1) layers)"
proof (cases ls)
  case Nil
  with assms have "predecessors G n = []" by simp
  with Nil show ?thesis by (simp add: in_degree_def)
next
  case (Cons l ls')
  with assms have "predecessors G n \<noteq> []" by auto
  then have "in_degree G n \<noteq> 0" by (simp add: in_degree_def)
  moreover from assms have "those (map (map_of layers) (predecessors G n)) = Some ls"
    by (simp add: those_eq_Some)
  moreover have "fold max ls' l = Max (set (l # ls'))"
    by (simp only: Max.set_eq_fold)
  ultimately show ?thesis using Cons by simp
qed

lemma assign_loop_ok:
  assumes "topo_from G D order" and "distinct order" and "set order \<inter> D = {}"
    and "dom (map_of layers) = D" and "\<forall>v \<in> D. layer_ok G (map_of layers) v"
    and "distinct (map fst layers)"
  shows "\<exists>layers'. assign_loop G order layers = Inr layers' \<and>
           dom (map_of layers') = D \<union> set order \<and>
           (\<forall>v \<in> D \<union> set order. layer_ok G (map_of layers') v) \<and>
           distinct (map fst layers')"
  using assms
proof (induction order arbitrary: D layers)
  case Nil
  then show ?case by simp
next
  case (Cons n order)
  define L where "L = map_of layers"
  define ls where "ls = map (\<lambda>u. the (L u)) (predecessors G n)"
  define x where "x = (if ls = [] then 0 else Max (set ls) + 1)"
  define layers1 where "layers1 = AList.update n x layers"
  from Cons.prems have nD: "n \<notin> D" and pD: "set (predecessors G n) \<subseteq> D"
    by auto
  from nD Cons.prems(4) have Ln: "L n = None" by (auto simp: L_def)
  have m: "map L (predecessors G n) = map Some ls"
    unfolding ls_def using pD Cons.prems(4) by (auto simp: L_def)
  have nonneg: "\<forall>l \<in> set ls. 0 \<le> l"
  proof
    fix l
    assume "l \<in> set ls"
    then obtain u where u: "u \<in> set (predecessors G n)" and l: "l = the (L u)"
      by (auto simp: ls_def)
    with pD Cons.prems(5) have "layer_ok G L u" by (auto simp: L_def)
    from layer_ok_nonneg[OF this] l show "0 \<le> l" by auto
  qed
  have step: "assign_loop G (n # order) layers = assign_loop G order layers1"
    unfolding layers1_def x_def using m by (intro assign_loop_step) (simp add: L_def)
  have L1: "map_of layers1 = L(n \<mapsto> x)"
    by (simp add: layers1_def update_conv' L_def)
  have "map (L(n \<mapsto> x)) (predecessors G n) = map L (predecessors G n)"
    using pD nD by (intro map_cong) auto
  with m nonneg have okn: "layer_ok G (L(n \<mapsto> x)) n"
    unfolding layer_ok_def x_def by (intro exI[of _ ls]) simp
  have ok1: "\<forall>v \<in> insert n D. layer_ok G (map_of layers1) v"
    unfolding L1 using okn Cons.prems(5) layer_ok_update[of G L _ n x] Ln by (auto simp: L_def)
  have dom1: "dom (map_of layers1) = insert n D"
    unfolding L1 using Cons.prems(4) by (auto simp: L_def)
  have d1: "distinct (map fst layers1)"
    unfolding layers1_def using Cons.prems(6) by (rule distinct_update)
  have "\<exists>layers'. assign_loop G order layers1 = Inr layers' \<and>
           dom (map_of layers') = insert n D \<union> set order \<and>
           (\<forall>v \<in> insert n D \<union> set order. layer_ok G (map_of layers') v) \<and>
           distinct (map fst layers')"
  proof (rule Cons.IH[OF _ _ _ dom1 ok1 d1])
    show "topo_from G (insert n D) order" using Cons.prems(1) by simp
    show "distinct order" using Cons.prems(2) by simp
    show "set order \<inter> insert n D = {}" using Cons.prems(2,3) by auto
  qed
  moreover have "insert n D \<union> set order = D \<union> set (n # order)" by auto
  ultimately show ?case unfolding step by simp
qed

lemma assign_layers_outcome:
  assumes wf: "wf_digraph G"
  shows "\<exists>order layers. set order = {v \<in> set (nodes G). remaining G (set order) v = 0} \<and>
           dom (map_of layers) = set order \<and>
           (\<forall>v \<in> set order. layer_ok G (map_of layers) v) \<and>
           distinct (map fst layers) \<and>
           assign_layers G =
             (if set order = set (nodes G) then Inr layers else Inl NetworkXUnfeasible)"
proof -
  from topological_sort_ok[OF wf] obtain order e where
    ts: "topological_sort G = (order, e)" and d: "distinct order"
    and t: "topo_from G {} order"
    and c: "set order = {v \<in> set (nodes G). remaining G (set order) v = 0}"
    and e: "e = (if set order = set (nodes G) then None else Some NetworkXUnfeasible)"
    by blast
  from assign_loop_ok[OF t d, of "[]"] obtain layers where
    al: "assign_loop G order [] = Inr layers"
    and dom: "dom (map_of layers) = set order"
    and ok: "\<forall>v \<in> set order. layer_ok G (map_of layers) v"
    and dl: "distinct (map fst layers)"
    by auto
  have "assign_layers G =
          (if set order = set (nodes G) then Inr layers else Inl NetworkXUnfeasible)"
    by (simp add: assign_layers_def ts al e)
  with c dom ok dl show ?thesis by blast
qed

lemma layer_ok_edge:
  assumes "layer_ok G L v" and "(u, v) \<in> set (nx_edges G)"
  shows "\<exists>lu lv. L u = Some lu \<and> L v = Some lv \<and> 0 \<le> lu \<and> lu < lv"
proof -
  from assms(1) obtain ls where m: "map L (predecessors G v) = map Some ls"
    and nn: "\<forall>l \<in> set ls. 0 \<le> l"
    and v: "L v = Some (if ls = [] then 0 else Max (set ls) + 1)"
    by (auto simp: layer_ok_def)
  from assms(2) have "u \<in> set (predecessors G v)" by (simp add: mem_predecessors)
  then have "L u \<in> set (map L (predecessors G v))" by simp
  with m obtain lu where lu: "L u = Some lu" "lu \<in> set ls" by auto
  then have "lu \<le> Max (set ls)" by simp
  with lu v nn show ?thesis by auto
qed

lemma acyclic_if_layers:
  assumes "\<forall>v \<in> set (nodes G). layer_ok G L v" and "wf_digraph G"
  shows "acyclic (set (nx_edges G))"
proof -
  have "set (nx_edges G) \<subseteq> measure (\<lambda>v. nat (the (L v)))"
  proof
    fix e
    assume e: "e \<in> set (nx_edges G)"
    obtain u v where uv: "e = (u, v)" by (cases e)
    with e assms(2) have "v \<in> set (nodes G)" by (auto simp: wf_digraph_def)
    with assms(1) have "layer_ok G L v" by simp
    from layer_ok_edge[OF this] e uv show "e \<in> measure (\<lambda>v. nat (the (L v)))"
      by fastforce
  qed
  then have "wf (set (nx_edges G))"
    by (rule wf_subset[OF wf_measure])
  then show ?thesis by (rule wf_acyclic)
qed

lemma closed_covers_if_acyclic:
  assumes wf: "wf_digraph G" and ac: "acyclic (set (nx_edges G))"
    and cl: "F = {v \<in> set (nodes G). remaining G F v = 0}"
  shows "F = set (nodes G)"
proof (rule ccontr)
  assume "F \<noteq> set (nodes G)"
  with cl obtain x where x: "x \<in> set (nodes G) - F" by auto
  have "wf (set (nx_edges G))"
    using ac by (simp add: finite_acyclic_wf)
  from wfE_min[OF this x] obtain z where z: "z \<in> set (nodes G) - F"
    and min: "\<And>y. (y, z) \<in> set (nx_edges G) \<Longrightarrow> y \<notin> set (nodes G) - F"
    by blast
  have "set (predecessors G z) \<subseteq> F"
  proof
    fix y
    assume "y \<in> set (predecessors G z)"
    then have yz: "(y, z) \<in> set (nx_edges G)" by (simp add: mem_predecessors)
    with wf have "y \<in> set (nodes G)" by (auto simp: wf_digraph_def)
    with min[OF yz] show "y \<in> F" by simp
  qed
  then have "remaining G F z = 0" by (simp add: remaining_zero_iff)
  with z cl show False by auto
qed

lemma assign_layers_acyclic:
  assumes wf: "wf_digraph G" and ac: "acyclic (set (nx_edges G))"
  shows "\<exists>layers. assign_layers G = Inr layers \<and> dom (map_of layers) = set (nodes G) \<and>
           (\<forall>v \<in> set (nodes G). layer_ok G (map_of layers) v) \<and>
           distinct (map fst layers)"
proof -
  from assign_layers_outcome[OF wf] obtain order layers where
    c: "set order = {v \<in> set (nodes G). remaining G (set order) v = 0}"
    and r: "dom (map_of layers) = set order"
      "\<forall>v \<in> set order. layer_ok G (map_of layers) v"
      "distinct (map fst layers)"
      "assign_layers G =
         (if set order = set (nodes G) then Inr layers else Inl NetworkXUnfeasible)"
    by blast
  from closed_covers_if_acyclic[OF wf ac c] have "set order = set (nodes G)" .
  with r show ?thesis by auto
qed

lemma assign_layers_cyclic:
  assumes wf: "wf_digraph G" and cyc: "\<not> acyclic (set (nx_edges G))"
  shows "assign_layers G = Inl NetworkXUnfeasible"
proof -
  from assign_layers_outcome[OF wf] obtain order layers where
    r: "\<forall>v \<in> set order. layer_ok G (map_of layers) v"
      "assign_layers G =
         (if set order = set (nodes G) then Inr layers else Inl NetworkXUnfeasible)"
    by blast
  have "set order \<noteq> set (nodes G)"
  proof
    assume "set order = set (nodes G)"
    with r(1) have "\<forall>v \<in> set (nodes G). layer_ok G (map_of layers) v" by simp
    from acyclic_if_layers[OF this wf] cyc show False by simp
  qed
  with r(2) show ?thesis by simp
qed

section \<open>The claims about the layers\<close>

text \<open>
  Claim C1. When the graph built from the jobs has no cycle, \<^verbatim>\<open>assign_layers\<close> returns
  a layer dict, and for every edge of the graph from \<open>u\<close> to \<open>v\<close> both ends have a
  layer (before the display offset) and the layer of \<open>u\<close> is below the layer of \<open>v\<close>.
\<close>

theorem C1_edges_go_up_a_layer:
  assumes "build_dependency_graph jobs = (G, job_id_to_name)"
    and "acyclic (set (nx_edges G))"
  shows "\<exists>layers. assign_layers G = Inr layers \<and>
           (\<forall>(u, v) \<in> set (nx_edges G).
              \<exists>lu lv. map_of layers u = Some lu \<and> map_of layers v = Some lv \<and> lu < lv)"
proof -
  from assms(1) wf_digraph_build[of jobs] have wf: "wf_digraph G" by simp
  from assign_layers_acyclic[OF wf assms(2)] obtain layers where
    r: "assign_layers G = Inr layers"
    and ok: "\<forall>v \<in> set (nodes G). layer_ok G (map_of layers) v"
    by blast
  have "\<exists>lu lv. map_of layers u = Some lu \<and> map_of layers v = Some lv \<and> lu < lv"
    if e: "(u, v) \<in> set (nx_edges G)" for u v
  proof -
    from e wf have "v \<in> set (nodes G)" by (auto simp: wf_digraph_def)
    with ok have "layer_ok G (map_of layers) v" by simp
    from layer_ok_edge[OF this e] show ?thesis by blast
  qed
  with r show ?thesis by blast
qed

theorem C1_edges_go_up_a_layer_witness:
  "process_jobs_from_input scenario_A = Inr jobs_A \<and>
   build_dependency_graph jobs_A =
     (graph_A, [(''A'', ''Compile''), (''B'', ''Link''), (''C'', ''Test'')]) \<and>
   acyclic (set (nx_edges graph_A)) \<and>
   (\<exists>layers lu lv. assign_layers graph_A = Inr layers \<and>
      map_of layers ''B'' = Some lu \<and> map_of layers ''C'' = Some lv \<and> lu < lv)"
proof -
  have ac: "acyclic (set (nx_edges graph_A))" by code_simp
  from C1_edges_go_up_a_layer[OF build_scenario_A ac] obtain layers where
    r: "assign_layers graph_A = Inr layers"
    and up: "\<forall>(u, v) \<in> set (nx_edges graph_A).
              \<exists>lu lv. map_of layers u = Some lu \<and> map_of layers v = Some lv \<and> lu < lv"
    by blast
  from up have "\<exists>lu lv. map_of layers ''B'' = Some lu \<and> map_of layers ''C'' = Some lv \<and> lu < lv"
    by simp
  with r ac build_scenario_A process_scenario_A show ?thesis by blast
qed

text \<open>
  Claim C2. On a graph without cycle (any graph that \<^verbatim>\<open>add_node\<close> and \<^verbatim>\<open>add_edge\<close>
  can make, see \<open>wf_digraph_build\<close>) \<^verbatim>\<open>assign_layers\<close> returns a layer dict in which
  every node has a layer \<open>l\<close> and each of its direct predecessors has one; \<open>l\<close> is 0
  exactly when no edge enters the node, that is when its in-degree is 0; and when an
  edge enters it, \<open>l\<close> is one more than the greatest layer of its direct predecessors.
\<close>

theorem C2_layer_of_a_node:
  assumes "wf_digraph G" and "acyclic (set (nx_edges G))" and "v \<in> set (nodes G)"
  shows "\<exists>layers l ls. assign_layers G = Inr layers \<and> map_of layers v = Some l \<and>
           map (map_of layers) (predecessors G v) = map Some ls \<and>
           (l = 0 \<longleftrightarrow> (\<forall>u. (u, v) \<notin> set (nx_edges G))) \<and>
           (l = 0 \<longleftrightarrow> in_degree G v = 0) \<and>
           ((\<exists>u. (u, v) \<in> set (nx_edges G)) \<longrightarrow> l = 1 + Max (set ls))"
proof -
  from assign_layers_acyclic[OF assms(1,2)] assms(3) obtain layers where
    r: "assign_layers G = Inr layers" and ok: "layer_ok G (map_of layers) v"
    by blast
  from ok obtain ls where m: "map (map_of layers) (predecessors G v) = map Some ls"
    and nn: "\<forall>l \<in> set ls. 0 \<le> l"
    and l: "map_of layers v = Some (if ls = [] then 0 else Max (set ls) + 1)"
    by (auto simp: layer_ok_def)
  from m have len: "length ls = length (predecessors G v)"
    by (metis length_map)
  have none: "(\<forall>u. (u, v) \<notin> set (nx_edges G)) \<longleftrightarrow> ls = []"
  proof -
    have "(\<forall>u. (u, v) \<notin> set (nx_edges G)) \<longleftrightarrow> set (predecessors G v) = {}"
      by (auto simp: mem_predecessors[symmetric])
    also have "\<dots> \<longleftrightarrow> ls = []" using len by auto
    finally show ?thesis .
  qed
  have deg: "in_degree G v = 0 \<longleftrightarrow> ls = []"
    using len by (auto simp: in_degree_def)
  show ?thesis
  proof (cases "ls = []")
    case True
    with r l m none deg show ?thesis by auto
  next
    case False
    with nn have "0 \<le> Max (set ls)"
      by (cases ls) (auto simp: Max_ge_iff)
    with False r l m none deg show ?thesis
      by (intro exI[of _ layers] exI[of _ "Max (set ls) + 1"] exI[of _ ls]) auto
  qed
qed

lemma build_scenario_D:
  "build_dependency_graph jobs_D =
     (graph_D, [(''A'', ''a''), (''B'', ''b''), (''C'', ''c'')])"
  by code_simp

lemma topological_sort_D: "topological_sort graph_D = ([''A'', ''B'', ''C''], None)"
  by code_simp

lemma assign_layers_D: "assign_layers graph_D = Inr [(''A'', 0), (''B'', 0), (''C'', 1)]"
  unfolding assign_layers_def topological_sort_D by code_simp

theorem C2_layer_of_a_node_witness:
  "wf_digraph graph_D \<and> acyclic (set (nx_edges graph_D)) \<and> ''C'' \<in> set (nodes graph_D) \<and>
   (\<exists>u. (u, ''C'') \<in> set (nx_edges graph_D)) \<and>
   (\<exists>layers ls. assign_layers graph_D = Inr layers \<and>
      map (map_of layers) (predecessors graph_D ''C'') = map Some ls \<and>
      map_of layers ''C'' = Some (1 + Max (set ls)) \<and> map_of layers ''C'' = Some 1)"
proof -
  have wf: "wf_digraph graph_D"
    using wf_digraph_build[of jobs_D]
    by (simp add: build_scenario_D)
  have ac: "acyclic (set (nx_edges graph_D))" by code_simp
  have n: "''C'' \<in> set (nodes graph_D)" by (simp add: nodes_def)
  have e: "\<exists>u. (u, ''C'') \<in> set (nx_edges graph_D)" by auto
  from C2_layer_of_a_node[OF wf ac n] e obtain layers l ls where
    "assign_layers graph_D = Inr layers" "map_of layers ''C'' = Some l"
    "map (map_of layers) (predecessors graph_D ''C'') = map Some ls"
    "l = 1 + Max (set ls)"
    by blast
  with wf ac n e show ?thesis
    by (auto simp: assign_layers_D)
qed

text \<open>
  Claim C4. When the graph built from the jobs has a cycle, \<^verbatim>\<open>assign_layers\<close> ends
  with the exception \<^verbatim>\<open>NetworkXUnfeasible\<close> of the topological sort ("Graph contains a
  cycle or graph changed during iteration"): no other exception comes first and no
  layer dict is returned.
\<close>

theorem C4_cycle_is_reported:
  assumes "build_dependency_graph jobs = (G, job_id_to_name)"
    and "\<not> acyclic (set (nx_edges G))"
  shows "assign_layers G = Inl NetworkXUnfeasible"
proof -
  from assms(1) wf_digraph_build[of jobs] have "wf_digraph G" by simp
  then show ?thesis using assms(2) by (rule assign_layers_cyclic)
qed

lemma build_scenario_C:
  "build_dependency_graph jobs_C =
     (graph_C, [(''A'', ''a''), (''B'', ''b'')])"
  by code_simp

lemma process_scenario_C: "process_jobs_from_input scenario_C = Inr jobs_C"
  by code_simp

theorem C4_cycle_is_reported_witness:
  "process_jobs_from_input scenario_C = Inr jobs_C \<and>
   build_dependency_graph jobs_C =
     (graph_C, [(''A'', ''a''), (''B'', ''b'')]) \<and>
   \<not> acyclic (set (nx_edges graph_C)) \<and>
   assign_layers graph_C = Inl NetworkXUnfeasible"
proof -
  have cyc: "\<not> acyclic (set (nx_edges graph_C))" by code_simp
  from C4_cycle_is_reported[OF build_scenario_C cyc] cyc build_scenario_C process_scenario_C
  show ?thesis by blast
qed

section \<open>Rows that share a job ID\<close>

lemma filter_eq_distinct: "distinct xs \<Longrightarrow> k \<in> set xs \<Longrightarrow> filter (\<lambda>n. n = k) xs = [k]"
proof (induction xs)
  case Nil
  then show ?case by simp
next
  case (Cons x xs)
  show ?case
  proof (cases "x = k")
    case True
    with Cons.prems have "k \<notin> set xs" by simp
    then have "filter (\<lambda>n. n = k) xs = []" by (auto simp: filter_empty_conv)
    with True show ?thesis by simp
  next
    case False
    with Cons show ?thesis by simp
  qed
qed

lemma filter_key_distinct:
  "distinct (map fst al) \<Longrightarrow> map_of al k = Some v \<Longrightarrow> filter (\<lambda>x. fst x = k) al = [(k, v)]"
proof (induction al)
  case Nil
  then show ?case by simp
next
  case (Cons a al)
  show ?case
  proof (cases "fst a = k")
    case True
    with Cons.prems have "k \<notin> fst ` set al" and "a = (k, v)" by (auto simp: prod_eq_iff)
    then have "filter (\<lambda>x. fst x = k) al = []" by (auto simp: filter_empty_conv)
    with True \<open>a = (k, v)\<close> show ?thesis by simp
  next
    case False
    with Cons show ?thesis by simp
  qed
qed

lemma label_touch_node:
  "map_of (nx_node G) k = Some v \<Longrightarrow> map_of (nx_node (touch_node n G)) k = Some v"
  by (simp add: touch_node_def map_add_Some_iff)

lemma label_add_edge:
  "map_of (nx_node G) k = Some v \<Longrightarrow> map_of (nx_node (add_edge u w G)) k = Some v"
  by (simp add: add_edge_def Let_def label_touch_node)

lemma label_add_edges:
  "map_of (nx_node G) k = Some v \<Longrightarrow> map_of (nx_node (add_edges j ds G)) k = Some v"
  by (induction ds arbitrary: G) (auto simp: label_add_edge)

lemma label_add_node_same: "map_of (nx_node (add_node k n G)) k = Some (Some n)"
  by (simp add: add_node_def update_conv')

lemma label_add_node_other:
  "j \<noteq> k \<Longrightarrow> map_of (nx_node (add_node j n G)) k = map_of (nx_node G) k"
  by (simp add: add_node_def update_conv')

lemma named_step_same: "named (build_loop [(k, n, ds)] st) k n"
  by (cases st) (simp add: named_def label_add_edges label_add_node_same update_conv')

lemma named_step_other:
  "named st k n \<Longrightarrow> j \<noteq> k \<Longrightarrow> named (build_loop [(j, x, ds)] st) k n"
  by (cases st) (simp add: named_def label_add_edges label_add_node_other update_conv')

lemma named_build_loop:
  "k \<in> ID ` set df \<Longrightarrow>
     named (build_loop (map (\<lambda>r. (ID r, Name r, tokens r)) df) st) k
       (Name (last (filter (\<lambda>x. ID x = k) df)))"
proof (induction df rule: rev_induct)
  case Nil
  then show ?case by simp
next
  case (snoc r df)
  have split: "build_loop (map (\<lambda>r. (ID r, Name r, tokens r)) (df @ [r])) st =
      build_loop [(ID r, Name r, tokens r)]
        (build_loop (map (\<lambda>r. (ID r, Name r, tokens r)) df) st)"
    by (simp add: build_loop_append)
  show ?case
  proof (cases "ID r = k")
    case True
    then show ?thesis
      unfolding split using named_step_same[of k "Name r"] by simp
  next
    case False
    with snoc.prems have k: "k \<in> ID ` set df" by auto
    then have "filter (\<lambda>x. ID x = k) df \<noteq> []"
      by (auto simp: filter_empty_conv)
    with False have "last (filter (\<lambda>x. ID x = k) (df @ [r])) = last (filter (\<lambda>x. ID x = k) df)"
      by simp
    with named_step_other[OF snoc.IH[OF k] False] show ?thesis
      unfolding split by simp
  qed
qed

lemma named_node: "named (G, names) k n \<Longrightarrow> k \<in> set (nodes G)"
  by (auto simp: named_def nodes_def dest: map_of_SomeD intro: rev_image_eqI)

lemma ordered_jobs_df_row:
  assumes "distinct (map fst layers)" and "map_of layers k = Some l"
  shows "filter (\<lambda>(l, j, n). j = k) (ordered_jobs_df layers names) = [(l, k, map_of names k)]"
proof -
  have "filter (\<lambda>(l, j, n). j = k) (ordered_jobs_df layers names) =
        map (\<lambda>(n, l). (l, n, map_of names n)) (filter (\<lambda>x. fst x = k) (sort_key snd layers))"
    unfolding ordered_jobs_df_def filter_map
    by (rule arg_cong[where f = "map _"], rule filter_cong) auto
  also have "filter (\<lambda>x. fst x = k) (sort_key snd layers) =
             sort_key snd (filter (\<lambda>x. fst x = k) layers)"
    by (rule filter_sort)
  also have "filter (\<lambda>x. fst x = k) layers = [(k, l)]"
    using assms by (rule filter_key_distinct)
  finally show ?thesis by simp
qed

lemma labels_row:
  assumes "distinct ns" and "k \<in> set ns"
  shows "filter (\<lambda>(n, lbl). n = k) (map (\<lambda>n. (n, g n)) ns) = [(k, g k)]"
proof -
  have "filter (\<lambda>(n, lbl). n = k) (map (\<lambda>n. (n, g n)) ns) =
        map (\<lambda>n. (n, g n)) (filter (\<lambda>n. n = k) ns)"
    unfolding filter_map by (rule arg_cong[where f = "map _"], rule filter_cong) auto
  with filter_eq_distinct[OF assms] show ?thesis by simp
qed

lemma visualize_jobs_acyclic:
  assumes p: "process_jobs_from_input df = Inr jobs"
    and b: "build_dependency_graph jobs = (G, names)"
    and ac: "acyclic (set (nx_edges G))"
    and o: "orientation \<in> set orientations"
  shows "\<exists>layers0 d. assign_layers G = Inr layers0 \<and>
           dom (map_of layers0) = set (nodes G) \<and> distinct (map fst layers0) \<and>
           visualize_jobs df orientation =
             Inr (ordered_jobs_df (map (\<lambda>(n, l). (n, l + 1)) layers0) names, d) \<and>
           labels d = map (\<lambda>n. (n, case map_of names n of Some name \<Rightarrow> name | None \<Rightarrow> n))
                        (nodes G)"
proof -
  from b wf_digraph_build[of jobs] have wf: "wf_digraph G" by simp
  from assign_layers_acyclic[OF wf ac] obtain layers0 where
    r: "assign_layers G = Inr layers0" and dom: "dom (map_of layers0) = set (nodes G)"
    and dl: "distinct (map fst layers0)"
    by blast
  define layers where "layers = map (\<lambda>(n, l). (n, l + 1)) layers0"
  have L: "map_of layers = map_option (\<lambda>l. l + 1) \<circ> map_of layers0"
    unfolding layers_def by (rule map_of_map)
  define ls where "ls = map (\<lambda>n. the (map_of layers n)) (nodes G)"
  from dom have "\<forall>n \<in> set (nodes G). \<exists>z. map_of layers0 n = Some z"
    by blast
  then have "map (map_of layers) (nodes G) = map Some ls"
    unfolding ls_def by (auto simp: L)
  then have th: "those (map (map_of layers) (nodes G)) = Some ls"
    by (simp add: those_eq_Some)
  from draw_layered_graph_valid[OF o, of G layers names] th
  obtain d where d: "draw_layered_graph G layers names orientation = Inr d"
    and l: "labels d = map (\<lambda>n. (n, case map_of names n of Some name \<Rightarrow> name | None \<Rightarrow> n))
                        (nodes G)"
    by auto
  have "visualize_jobs df orientation = Inr (ordered_jobs_df layers names, d)"
    by (simp add: visualize_jobs_def p b r d layers_def[symmetric])
  with r dom dl l show ?thesis
    unfolding layers_def by blast
qed

text \<open>
  Claim C10. For a row \<open>r\<close> of a table that the parser reads without exception (no
  \<^verbatim>\<open>NaN\<close> cell, see \<open>process_jobs_from_input_ok\<close>), whatever other rows carry the
  same ID: the built graph has the ID of \<open>r\<close> as a node once; the label of that node and the entry
  of \<^verbatim>\<open>job_id_to_name\<close> are the name of the last row with that ID; and when the graph
  has no cycle, \<^verbatim>\<open>assign_layers\<close> returns a dict with one entry for the ID,
  \<^verbatim>\<open>visualize_jobs\<close> returns, the ordered table has one row for the ID, with that
  layer plus one and that name, and the drawing has one label for it, that name.
\<close>

theorem C10_repeated_job_id:
  assumes "r \<in> set df"
    and "process_jobs_from_input df = Inr jobs"
    and "build_dependency_graph jobs = (G, job_id_to_name)"
  shows "filter (\<lambda>n. n = ID r) (nodes G) = [ID r] \<and>
    map_of (nx_node G) (ID r) = Some (Some (Name (last (filter (\<lambda>x. ID x = ID r) df)))) \<and>
    map_of job_id_to_name (ID r) = Some (Name (last (filter (\<lambda>x. ID x = ID r) df))) \<and>
    (acyclic (set (nx_edges G)) \<longrightarrow> orientation \<in> set orientations \<longrightarrow>
       (\<exists>layers l t d.
          assign_layers G = Inr layers \<and>
          filter (\<lambda>(n, l). n = ID r) layers = [(ID r, l)] \<and>
          visualize_jobs df orientation = Inr (t, d) \<and>
          filter (\<lambda>(l, j, n). j = ID r) t =
            [(l + 1, ID r, Some (Name (last (filter (\<lambda>x. ID x = ID r) df))))] \<and>
          filter (\<lambda>(n, lbl). n = ID r) (labels d) =
            [(ID r, Name (last (filter (\<lambda>x. ID x = ID r) df)))]))"
proof -
  define name where "name = Name (last (filter (\<lambda>x. ID x = ID r) df))"
  from assms(3) wf_digraph_build[of jobs] have wf: "wf_digraph G"
    by simp
  from process_jobs_from_input_Inr[OF assms(2)]
  have jobs: "jobs = map (\<lambda>r. (ID r, Name r, tokens r)) df" by simp
  from assms(1) have "ID r \<in> ID ` set df" by simp
  from named_build_loop[OF this, of "(DiGraph, [])"] assms(3)
  have nm: "named (G, job_id_to_name) (ID r) name"
    by (simp add: build_dependency_graph_def name_def jobs)
  then have k: "ID r \<in> set (nodes G)" by (rule named_node)
  from wf have dn: "distinct (nodes G)" by (simp add: wf_digraph_def)
  have one: "filter (\<lambda>n. n = ID r) (nodes G) = [ID r]"
    using dn k by (rule filter_eq_distinct)
  have rest: "\<exists>layers l t d.
          assign_layers G = Inr layers \<and>
          filter (\<lambda>(n, l). n = ID r) layers = [(ID r, l)] \<and>
          visualize_jobs df orientation = Inr (t, d) \<and>
          filter (\<lambda>(l, j, n). j = ID r) t = [(l + 1, ID r, Some name)] \<and>
          filter (\<lambda>(n, lbl). n = ID r) (labels d) = [(ID r, name)]"
    if ac: "acyclic (set (nx_edges G))" and o: "orientation \<in> set orientations"
  proof -
    from visualize_jobs_acyclic[OF assms(2,3) ac o] obtain layers0 d where
      r: "assign_layers G = Inr layers0" and dom: "dom (map_of layers0) = set (nodes G)"
      and dl: "distinct (map fst layers0)"
      and v: "visualize_jobs df orientation =
             Inr (ordered_jobs_df (map (\<lambda>(n, l). (n, l + 1)) layers0) job_id_to_name, d)"
      and lb: "labels d = map (\<lambda>n. (n, case map_of job_id_to_name n of
                                         Some name \<Rightarrow> name | None \<Rightarrow> n)) (nodes G)"
      by blast
    from dom k obtain l where l: "map_of layers0 (ID r) = Some l" by auto
    have f0: "filter (\<lambda>(n, l). n = ID r) layers0 = [(ID r, l)]"
      using filter_key_distinct[OF dl l] by (simp add: case_prod_unfold)
    define layers where "layers = map (\<lambda>(n, l). (n, l + 1)) layers0"
    have "map fst layers = map fst layers0"
      by (simp add: layers_def case_prod_unfold)
    with dl have d1: "distinct (map fst layers)" by simp
    have "map_of layers = map_option (\<lambda>l. l + 1) \<circ> map_of layers0"
      unfolding layers_def by (rule map_of_map)
    with l have l1: "map_of layers (ID r) = Some (l + 1)" by simp
    from ordered_jobs_df_row[OF d1 l1, of job_id_to_name] nm
    have row: "filter (\<lambda>(l, j, n). j = ID r) (ordered_jobs_df layers job_id_to_name) =
                [(l + 1, ID r, Some name)]"
      by (simp add: named_def)
    from labels_row[OF dn k, of "\<lambda>n. case map_of job_id_to_name n of
                                         Some name \<Rightarrow> name | None \<Rightarrow> n"] nm
    have lab: "filter (\<lambda>(n, lbl). n = ID r) (labels d) = [(ID r, name)]"
      unfolding lb by (simp add: named_def)
    from r f0 v row lab show ?thesis
      unfolding layers_def by blast
  qed
  from one nm rest show ?thesis
    unfolding name_def named_def by simp
qed

lemma process_repeated_A: "process_jobs_from_input repeated_A = Inr jobs_repeated_A"
  by code_simp

lemma build_repeated_A:
  "build_dependency_graph jobs_repeated_A =
     (graph_repeated_A, [(''A'', ''second''), (''B'', ''b'')])"
  by code_simp

theorem C10_repeated_job_id_witness:
  "\<lparr>ID = ''A'', Name = ''first'', Dependencies = PyNone\<rparr> \<in> set repeated_A \<and>
   process_jobs_from_input repeated_A = Inr jobs_repeated_A \<and>
   build_dependency_graph jobs_repeated_A =
     (graph_repeated_A, [(''A'', ''second''), (''B'', ''b'')]) \<and>
   acyclic (set (nx_edges graph_repeated_A)) \<and>
   ''Top to Bottom'' \<in> set orientations \<and>
   filter (\<lambda>n. n = ''A'') (nodes graph_repeated_A) = [''A''] \<and>
   map_of (nx_node graph_repeated_A) ''A'' = Some (Some ''second'') \<and>
   (\<exists>layers l t d.
      assign_layers graph_repeated_A = Inr layers \<and>
      filter (\<lambda>(n, l). n = ''A'') layers = [(''A'', l)] \<and>
      visualize_jobs repeated_A ''Top to Bottom'' = Inr (t, d) \<and>
      filter (\<lambda>(l, j, n). j = ''A'') t = [(l + 1, ''A'', Some ''second'')] \<and>
      filter (\<lambda>(n, lbl). n = ''A'') (labels d) = [(''A'', ''second'')])"
proof -
  have m: "\<lparr>ID = ''A'', Name = ''first'', Dependencies = PyNone\<rparr> \<in> set repeated_A"
    by simp
  have ac: "acyclic (set (nx_edges graph_repeated_A))" by code_simp
  have o: "''Top to Bottom'' \<in> set orientations" by (simp add: orientations_def)
  from C10_repeated_job_id[OF m process_repeated_A build_repeated_A, of "''Top to Bottom''"]
    ac o m build_repeated_A
  show ?thesis unfolding process_repeated_A by simp
qed

end
